theory Spec2Isabelle
  imports Complex_Main
begin

section \<open>Numbers, vectors, matrices and failures\<close>

text \<open>
  The solver of \<^verbatim>\<open>lars.h\<close> computes with \<^verbatim>\<open>double\<close>. The embedding is in exact
  arithmetic: a \<^verbatim>\<open>double\<close> is a \<^typ>\<open>real\<close>, rounding and overflow are not modelled.
  An Armadillo \<^verbatim>\<open>vec\<close> is a list of reals. An Armadillo \<^verbatim>\<open>mat\<close> is stored column by
  column, and so is the model: a matrix is the list of its columns, \<^verbatim>\<open>M.col(j)\<close> is
  the \<open>j\<close>-th element of the list and \<^verbatim>\<open>M(i,j)\<close> is entry \<open>i\<close> of column \<open>j\<close>. A matrix
  without columns has no rows here.

  What the C++ does beyond returning is a value of type \<open>fault\<close>:
  \<^item> \<open>IndexError\<close>: an element, a column or a span outside the object (Armadillo's
    bounds check, or a read outside a \<^verbatim>\<open>std::vector\<close>);
  \<^item> \<open>DimError\<close>: operands of incompatible sizes;
  \<^item> \<open>SolveError\<close>: \<^verbatim>\<open>solve\<close> finds no solution;
  \<^item> \<open>EmptyError\<close>: \<^verbatim>\<open>max\<close> of a vector without elements;
  \<^item> \<open>NotFinite\<close>: the \<^verbatim>\<open>double\<close> operation leaves the real numbers (the square root of
    a negative number, a division by zero whose quotient is used as a number). The C++
    raises nothing there: it runs on with NaN or an infinity. The exact model cannot
    follow it and stops with this value, which is therefore not an error of the program.
\<close>

type_synonym vec = "real list"
type_synonym mat = "real list list"

datatype fault = IndexError | DimError | SolveError | EmptyError | NotFinite

definition bindE :: "fault + 'a \<Rightarrow> ('a \<Rightarrow> fault + 'b) \<Rightarrow> fault + 'b" where
  "bindE m f = (case m of Inl e \<Rightarrow> Inl e | Inr x \<Rightarrow> f x)"

definition nthE :: "'a list \<Rightarrow> int \<Rightarrow> fault + 'a" where
  "nthE xs i = (if 0 \<le> i \<and> i < int (length xs) then Inr (xs ! nat i) else Inl IndexError)"

definition updE :: "'a list \<Rightarrow> int \<Rightarrow> 'a \<Rightarrow> fault + 'a list" where
  "updE xs i v = (if 0 \<le> i \<and> i < int (length xs) then Inr (xs[nat i := v]) else Inl IndexError)"

definition n_rows :: "mat \<Rightarrow> nat" where
  "n_rows M = (case M of [] \<Rightarrow> 0 | c # _ \<Rightarrow> length c)"

definition n_cols :: "mat \<Rightarrow> nat" where
  "n_cols M = length M"

fun dot :: "vec \<Rightarrow> vec \<Rightarrow> real" where
  "dot (a # u) (b # v) = a * b + dot u v"
| "dot _ _ = 0"

definition dotE :: "vec \<Rightarrow> vec \<Rightarrow> fault + real" where
  "dotE u v = (if length u = length v then Inr (dot u v) else Inl DimError)"

text \<open>\<^verbatim>\<open>a * u + b * v\<close> on vectors.\<close>

definition axpby :: "real \<Rightarrow> vec \<Rightarrow> real \<Rightarrow> vec \<Rightarrow> fault + vec" where
  "axpby a u b v =
     (if length u = length v then Inr (map2 (\<lambda>x y. a * x + b * y) u v) else Inl DimError)"

text \<open>
  An \<open>r\<close> by \<open>c\<close> matrix: \<open>c\<close> columns of \<open>r\<close> entries each.
\<close>

definition is_mat :: "nat \<Rightarrow> nat \<Rightarrow> mat \<Rightarrow> bool" where
  "is_mat r c M \<longleftrightarrow> length M = c \<and> (\<forall>v \<in> set M. length v = r)"

section \<open>The class \<^verbatim>\<open>Lars\<close>\<close>

text \<open>
  The fields of the class, in the order of the source. A name of the source ends in an
  underscore, which a constant of the logic cannot: the underscore is dropped, and the
  one-letter fields \<^verbatim>\<open>X_\<close>, \<^verbatim>\<open>y_\<close>, \<^verbatim>\<open>n_\<close>, \<^verbatim>\<open>p_\<close> are \<open>X_f\<close>, \<open>y_f\<close>, \<open>n_f\<close>, \<open>p_f\<close>.
\<close>

record lars =
  X_f :: mat
  y_f :: vec
  n_f :: nat
  p_f :: nat
  Gram :: mat
  Xty :: vec
  use_cholesky :: bool
  lasso :: bool
  desired_lambda :: real
  elastic_net :: bool
  lambda_2 :: real
  beta_path :: "vec list"
  lambda_path :: "real list"
  n_active :: nat
  active_set :: "nat list"
  is_active :: "bool list"

text \<open>
  The constructor sets the two mode flags and nothing else. The containers are
  default-constructed, so empty; the scalar fields keep whatever the memory \<open>u\<close> held.
\<close>

definition Lars :: "lars \<Rightarrow> lars" where
  "Lars u = u\<lparr>X_f := [], y_f := [], Gram := [], Xty := [], lasso := False,
     elastic_net := False, beta_path := [], lambda_path := [], active_set := [],
     is_active := []\<rparr>"

definition ComputeGram :: "lars \<Rightarrow> lars" where
  "ComputeGram s =
     (if elastic_net s then
        s\<lparr>Gram := map (\<lambda>j. map (\<lambda>i. dot (X_f s ! i) (X_f s ! j)
                                    + lambda_2 s * (if i = j then 1 else 0)) [0..<p_f s])
                      [0..<p_f s]\<rparr>
      else
        s\<lparr>Gram := map (\<lambda>j. map (\<lambda>i. dot (X_f s ! i) (X_f s ! j)) [0..<p_f s]) [0..<p_f s]\<rparr>)"

definition ComputeXty :: "lars \<Rightarrow> fault + lars" where
  "ComputeXty s =
     (if n_rows (X_f s) = length (y_f s) then Inr (s\<lparr>Xty := map (\<lambda>c. dot c (y_f s)) (X_f s)\<rparr>)
      else Inl DimError)"

definition Init3 :: "lars \<Rightarrow> mat \<Rightarrow> vec \<Rightarrow> bool \<Rightarrow> fault + lars" where
  "Init3 s X y use_chol =
     (let s1 = s\<lparr>X_f := X, y_f := y, n_f := n_rows X, p_f := n_cols X,
                 use_cholesky := use_chol\<rparr>
      in bindE (ComputeXty s1) (\<lambda>s2.
           let s3 = (if \<not> use_cholesky s2 then ComputeGram s2 else s2)
           in Inr (s3\<lparr>n_active := 0, active_set := [],
                      is_active := replicate (p_f s3) False\<rparr>)))"

definition Init4 :: "lars \<Rightarrow> mat \<Rightarrow> vec \<Rightarrow> bool \<Rightarrow> real \<Rightarrow> fault + lars" where
  "Init4 s X y use_chol dl = Init3 (s\<lparr>lasso := True, desired_lambda := dl\<rparr>) X y use_chol"

definition Init5 :: "lars \<Rightarrow> mat \<Rightarrow> vec \<Rightarrow> bool \<Rightarrow> real \<Rightarrow> real \<Rightarrow> fault + lars" where
  "Init5 s X y use_chol dl l2 = Init4 (s\<lparr>elastic_net := True, lambda_2 := l2\<rparr>) X y use_chol dl"

definition SetDesiredLambda :: "lars \<Rightarrow> real \<Rightarrow> lars" where
  "SetDesiredLambda s dl = s\<lparr>desired_lambda := dl\<rparr>"

subsection \<open>\<^verbatim>\<open>InterpolateBeta\<close>\<close>

text \<open>
  \<^verbatim>\<open>path_length\<close> is an \<^verbatim>\<open>int\<close>, the size of the coefficient path, and indexes both
  paths. The quotient \<^verbatim>\<open>interp\<close> is used as a number, so a zero denominator is
  \<open>NotFinite\<close>.
\<close>

definition InterpolateBeta :: "lars \<Rightarrow> real \<Rightarrow> fault + lars" where
  "InterpolateBeta s ultimate_lambda =
     (let path_length = int (length (beta_path s)) in
      bindE (nthE (lambda_path s) (path_length - 2)) (\<lambda>penultimate_lambda.
      if penultimate_lambda - ultimate_lambda = 0 then Inl NotFinite
      else
        let interp = (penultimate_lambda - desired_lambda s)
                     / (penultimate_lambda - ultimate_lambda) in
        bindE (nthE (beta_path s) (path_length - 2)) (\<lambda>b_prev.
        bindE (nthE (beta_path s) (path_length - 1)) (\<lambda>b_last.
        bindE (axpby (1 - interp) b_prev interp b_last) (\<lambda>b_new.
        bindE (updE (beta_path s) (path_length - 1) b_new) (\<lambda>bp.
        bindE (updE (lambda_path s) (path_length - 1) (desired_lambda s)) (\<lambda>lp.
        Inr (s\<lparr>beta_path := bp, lambda_path := lp\<rparr>))))))))"

subsection \<open>Loops and checked accesses\<close>

text \<open>
  A \<^verbatim>\<open>for\<close> loop over a container whose body can fail: the first failure ends the loop.
\<close>

fun foldE :: "('a \<Rightarrow> 'b \<Rightarrow> fault + 'b) \<Rightarrow> 'a list \<Rightarrow> 'b \<Rightarrow> fault + 'b" where
  "foldE f [] a = Inr a"
| "foldE f (x # xs) a = bindE (f x a) (foldE f xs)"

text \<open>\<^verbatim>\<open>M.col(j)\<close>, \<^verbatim>\<open>M.col(j) = c\<close>, \<^verbatim>\<open>M(i,j)\<close> and \<^verbatim>\<open>M(i,j) = v\<close>, with the bounds checked.\<close>

definition colE :: "mat \<Rightarrow> int \<Rightarrow> fault + vec" where
  "colE M j = nthE M j"

definition set_col :: "mat \<Rightarrow> int \<Rightarrow> vec \<Rightarrow> fault + mat" where
  "set_col M j c =
     (if 0 \<le> j \<and> j < int (length M) then
        (if length c = length (M ! nat j) then Inr (M[nat j := c]) else Inl DimError)
      else Inl IndexError)"

definition elem :: "mat \<Rightarrow> int \<Rightarrow> int \<Rightarrow> fault + real" where
  "elem M i j = bindE (nthE M j) (\<lambda>c. nthE c i)"

definition set_elem :: "mat \<Rightarrow> int \<Rightarrow> int \<Rightarrow> real \<Rightarrow> fault + mat" where
  "set_elem M i j v = bindE (nthE M j) (\<lambda>c. bindE (updE c i v) (\<lambda>c'. updE M j c'))"

subsection \<open>\<^verbatim>\<open>UpdateX\<close>, \<^verbatim>\<open>UpdateGram\<close>, \<^verbatim>\<open>UpdateXty\<close>\<close>

text \<open>The column indices are \<^verbatim>\<open>int\<close>s in the source.\<close>

definition UpdateGram :: "lars \<Rightarrow> int list \<Rightarrow> fault + lars" where
  "UpdateGram s col_inds =
     bindE (foldE (\<lambda>i. foldE (\<lambda>j G.
                bindE (colE (X_f s) i) (\<lambda>ci.
                bindE (colE (X_f s) j) (\<lambda>cj.
                set_elem G i j (dot ci cj)))) col_inds) col_inds (Gram s)) (\<lambda>G1.
     if elastic_net s then
       bindE (foldE (\<lambda>i G. bindE (elem G i i) (\<lambda>g. set_elem G i i (g + lambda_2 s)))
                col_inds G1) (\<lambda>G2.
       Inr (s\<lparr>Gram := G2\<rparr>))
     else Inr (s\<lparr>Gram := G1\<rparr>))"

definition UpdateXty :: "lars \<Rightarrow> int list \<Rightarrow> fault + lars" where
  "UpdateXty s col_inds =
     bindE (foldE (\<lambda>i v.
                bindE (colE (X_f s) i) (\<lambda>ci.
                bindE (dotE ci (y_f s)) (\<lambda>d.
                updE v i d))) col_inds (Xty s)) (\<lambda>v.
     Inr (s\<lparr>Xty := v\<rparr>))"

definition UpdateX :: "lars \<Rightarrow> int list \<Rightarrow> mat \<Rightarrow> fault + lars" where
  "UpdateX s col_inds new_cols =
     bindE (foldE (\<lambda>i X.
                bindE (colE new_cols (int i)) (\<lambda>c.
                set_col X (col_inds ! i) c)) [0..<length col_inds] (X_f s)) (\<lambda>X.
     let s1 = s\<lparr>X_f := X\<rparr> in
     bindE (if \<not> use_cholesky s1 then UpdateGram s1 col_inds else Inr s1) (\<lambda>s2.
     UpdateXty s2 col_inds))"

definition SetY :: "lars \<Rightarrow> vec \<Rightarrow> lars" where
  "SetY s y = s\<lparr>y_f := y\<rparr>"

subsection \<open>The active set\<close>

text \<open>
  \<^verbatim>\<open>n_active_\<close> and the positions are \<^verbatim>\<open>u32\<close>: \<open>u32_dec\<close> is \<^verbatim>\<open>n - 1\<close> in unsigned 32-bit
  arithmetic, and \<open>u32_minus_one\<close> is the value that \<^verbatim>\<open>change_ind = -1\<close> stores.
  \<^verbatim>\<open>Activate\<close> is only called under the loop guard \<^verbatim>\<open>n_active_ < p_\<close>, so its increment
  does not wrap. A write outside \<^verbatim>\<open>is_active_\<close> or a read outside \<^verbatim>\<open>active_set_\<close> is
  \<open>IndexError\<close>.
\<close>

definition u32_minus_one :: nat where
  "u32_minus_one = 4294967295"

definition u32_dec :: "nat \<Rightarrow> nat" where
  "u32_dec n = (if n = 0 then u32_minus_one else n - 1)"

definition Deactivate :: "lars \<Rightarrow> nat \<Rightarrow> fault + lars" where
  "Deactivate s active_var_ind =
     bindE (nthE (active_set s) (int active_var_ind)) (\<lambda>v.
     bindE (updE (is_active s) (int v) False) (\<lambda>ia.
     Inr (s\<lparr>n_active := u32_dec (n_active s), is_active := ia,
            active_set := take active_var_ind (active_set s)
                          @ drop (Suc active_var_ind) (active_set s)\<rparr>)))"

definition Activate :: "lars \<Rightarrow> nat \<Rightarrow> fault + lars" where
  "Activate s var_ind =
     bindE (updE (is_active s) (int var_ind) True) (\<lambda>ia.
     Inr (s\<lparr>n_active := n_active s + 1, is_active := ia,
            active_set := active_set s @ [var_ind]\<rparr>))"

subsection \<open>The Cholesky factor\<close>

text \<open>
  \<^verbatim>\<open>sqrt\<close> of a negative \<^verbatim>\<open>double\<close> is NaN; \<^verbatim>\<open>norm(v, 2)\<close> is the root of a sum of squares.
\<close>

definition c_sqrt :: "real \<Rightarrow> fault + real" where
  "c_sqrt x = (if x < 0 then Inl NotFinite else Inr (sqrt x))"

definition norm2 :: "vec \<Rightarrow> real" where
  "norm2 v = sqrt (dot v v)"

text \<open>
  \<^verbatim>\<open>solve(trimatl(trans(R)), b)\<close>: the lower triangle of \<open>R\<^sup>T\<close> is the upper triangle of \<open>R\<close>,
  read column by column. In exact arithmetic the solution of a triangular system is
  forward substitution, and there is none to find when a diagonal entry is zero. Row \<open>i\<close>
  of the system reads entries \<open>0..i\<close> of column \<open>i\<close> of \<open>R\<close>.
\<close>

definition solve_trimatl_trans :: "mat \<Rightarrow> vec \<Rightarrow> fault + vec" where
  "solve_trimatl_trans R b =
     (if n_cols R \<noteq> n_rows R \<or> length b \<noteq> n_rows R then Inl DimError
      else foldE (\<lambda>i r. if R ! i ! i = 0 then Inl SolveError
                         else Inr (r @ [(b ! i - dot (take i (R ! i)) r) / (R ! i ! i)]))
             [0..<n_rows R] [])"

definition CholeskyInsert :: "lars \<Rightarrow> mat \<Rightarrow> vec \<Rightarrow> vec \<Rightarrow> fault + mat" where
  "CholeskyInsert s R new_x new_Gram_col =
     (let n = n_rows R in
      if n = 0 then
        (if elastic_net s then
           bindE (c_sqrt (dot new_x new_x + lambda_2 s)) (\<lambda>r. Inr [[r]])
         else Inr [[norm2 new_x]])
      else
        let sq_norm_new_x = (if elastic_net s then dot new_x new_x + lambda_2 s
                             else dot new_x new_x) in
        bindE (solve_trimatl_trans R new_Gram_col) (\<lambda>R_k.
        bindE (c_sqrt (sq_norm_new_x - dot R_k R_k)) (\<lambda>d.
        Inr (map (\<lambda>c. c @ [0]) R @ [R_k @ [d]]))))"

text \<open>
  \<^verbatim>\<open>GivensRotate\<close> returns the rotated vector and the rotation \<open>G\<close>, a 2 by 2 matrix given
  by its columns \<open>(G(0,0), G(1,0))\<close> and \<open>(G(0,1), G(1,1))\<close>.
\<close>

definition GivensRotate :: "vec \<Rightarrow> vec \<times> mat" where
  "GivensRotate x =
     (if x ! 1 = 0 then (x, [[1, 0], [0, 1]])
      else
        let r = norm2 x;
            scaled_x1 = x ! 0 / r;
            scaled_x2 = x ! 1 / r
        in ([r, 0], [[scaled_x1, - scaled_x2], [scaled_x2, scaled_x1]]))"

text \<open>\<open>G * v\<close> for a 2 by 2 matrix and the two entries \<open>k\<close>, \<open>k + 1\<close> of a column.\<close>

definition mult2 :: "mat \<Rightarrow> vec \<Rightarrow> vec" where
  "mult2 G v = [G ! 0 ! 0 * v ! 0 + G ! 1 ! 0 * v ! 1, G ! 0 ! 1 * v ! 0 + G ! 1 ! 1 * v ! 1]"

definition span2 :: "vec \<Rightarrow> nat \<Rightarrow> vec" where
  "span2 c k = [c ! k, c ! Suc k]"

definition set_span2 :: "vec \<Rightarrow> nat \<Rightarrow> vec \<Rightarrow> vec" where
  "set_span2 c k v = c[k := v ! 0, Suc k := v ! 1]"

text \<open>
  One pass of the loop of \<^verbatim>\<open>CholeskyDelete\<close>, for the counter \<open>k\<close> and the decremented
  \<open>n\<close>: rows \<open>k\<close> and \<open>k + 1\<close> of column \<open>k\<close> are rotated, then those rows of the columns
  \<open>k + 1 .. n - 1\<close> are multiplied by \<open>G\<close>.
\<close>

definition Givens_step :: "nat \<Rightarrow> nat \<Rightarrow> mat \<Rightarrow> fault + mat" where
  "Givens_step n k R =
     (if \<not> (Suc k < n_rows R \<and> k < n_cols R) then Inl IndexError
      else
        let (rotated_vec, G) = GivensRotate (span2 (R ! k) k);
            R1 = R[k := set_span2 (R ! k) k rotated_vec]
        in if k < u32_dec n then
             (if \<not> (n - 1 < n_cols R1) then Inl IndexError
              else Inr (map (\<lambda>j. if Suc k \<le> j \<and> j \<le> n - 1
                                   then set_span2 (R1 ! j) k (mult2 G (span2 (R1 ! j) k))
                                   else R1 ! j) [0..<n_cols R1]))
           else Inr R1)"

definition shed_col :: "mat \<Rightarrow> nat \<Rightarrow> fault + mat" where
  "shed_col R j = (if j < n_cols R then Inr (take j R @ drop (Suc j) R) else Inl IndexError)"

definition shed_row :: "mat \<Rightarrow> nat \<Rightarrow> fault + mat" where
  "shed_row R i =
     (if i < n_rows R then Inr (map (\<lambda>c. take i c @ drop (Suc i) c) R) else Inl IndexError)"

text \<open>\<^verbatim>\<open>R(span(0, m), span(0, m))\<close>.\<close>

definition leading_block :: "mat \<Rightarrow> nat \<Rightarrow> fault + mat" where
  "leading_block R m =
     (if m < n_rows R \<and> m < n_cols R then Inr (map (take (Suc m)) (take (Suc m) R))
      else Inl IndexError)"

definition CholeskyDelete :: "mat \<Rightarrow> nat \<Rightarrow> fault + mat" where
  "CholeskyDelete R col_to_kill =
     (let n = n_rows R in
      if col_to_kill = u32_dec n then leading_block R (u32_dec (u32_dec n))
      else
        bindE (shed_col R col_to_kill) (\<lambda>R1.
        let n = u32_dec n in
        bindE (foldE (Givens_step n) [col_to_kill..<n] R1) (\<lambda>R2.
        shed_row R2 n)))"

text \<open>
  What one pass does to a column \<open>u\<close> when \<open>G\<close> has the rows \<open>(c, s)\<close> and \<open>(-s, c)\<close>: the
  entries \<open>k\<close> and \<open>k + 1\<close> are rotated. Used to state the effect of \<open>Givens_step\<close>.
\<close>

definition rot :: "real \<Rightarrow> real \<Rightarrow> nat \<Rightarrow> vec \<Rightarrow> vec" where
  "rot c s k u = u[k := c * u ! k + s * u ! Suc k, Suc k := - s * u ! k + c * u ! Suc k]"





section \<open>\<^verbatim>\<open>DoLARS\<close>\<close>

text \<open>
  The two solves of the Cholesky branch, \<^verbatim>\<open>solve(R, solve(trans(R), s))\<close>, are general
  solves applied to a factor that \<^verbatim>\<open>CholeskyInsert\<close> and \<^verbatim>\<open>CholeskyDelete\<close> keep upper
  triangular. In exact arithmetic their answer is then the answer of the triangular
  substitution: forward for \<open>R\<^sup>T\<close> (the function above), backward for \<open>R\<close>.
\<close>

definition solve_upper :: "mat \<Rightarrow> vec \<Rightarrow> fault + vec" where
  "solve_upper R b =
     (if n_cols R \<noteq> n_rows R \<or> length b \<noteq> n_rows R then Inl DimError
      else foldE (\<lambda>i u. if R ! i ! i = 0 then Inl SolveError
                         else Inr (u[i := (b ! i - sum_list (map (\<lambda>k. R ! k ! i * u ! k)
                                                          [Suc i..<n_rows R])) / (R ! i ! i)]))
             (rev [0..<n_rows R]) (replicate (n_rows R) 0))"

text \<open>
  The solve of the other branch, \<^verbatim>\<open>solve(Gram_active % trans(S) % S, ones)\<close>, is Armadillo's
  general dense solve. It is a parameter of the model, of this type; its answer has to
  have one entry for each column of the system.
\<close>

type_synonym solver = "mat \<Rightarrow> vec \<Rightarrow> fault + vec"

definition EPS :: real where
  "EPS = 1 / 10 ^ 16"

definition DBL_MAX :: real where
  "DBL_MAX = (2 - 1 / 2 ^ 52) * 2 ^ 1023"

text \<open>The local variables of \<^verbatim>\<open>DoLARS\<close> that live across iterations, and the object.\<close>

record lstate =
  obj :: lars
  beta :: vec
  y_hat :: vec
  kick_out :: bool
  corr :: vec
  change_ind :: nat
  max_corr :: real
  R_chol :: mat

fun mapE :: "('a \<Rightarrow> fault + 'b) \<Rightarrow> 'a list \<Rightarrow> fault + 'b list" where
  "mapE f [] = Inr []"
| "mapE f (x # xs) = bindE (f x) (\<lambda>y. bindE (mapE f xs) (\<lambda>ys. Inr (y # ys)))"

text \<open>
  \<^verbatim>\<open>abs_corr.max(change_ind)\<close>: the largest entry and the first position that holds it.
\<close>

definition index_max :: "vec \<Rightarrow> fault + real \<times> nat" where
  "index_max v =
     (if v = [] then Inl EmptyError
      else Inr (fold (\<lambda>i (best, bi). if v ! i > best then (v ! i, i) else (best, bi))
                  [1..<length v] (v ! 0, 0)))"

text \<open>
  The code before the main loop. \<^verbatim>\<open>sqrt_lambda_2\<close> is only printed and is left out. The
  two paths are not cleared: the first entries of the run are pushed behind whatever
  the paths hold.
\<close>

definition DoLARS_init :: "lars \<Rightarrow> fault + lstate" where
  "DoLARS_init s =
     (let beta0 = replicate (p_f s) 0;
          y_hat0 = replicate (n_f s) 0;
          s1 = (if elastic_net s then s else s\<lparr>lambda_2 := - 1\<rparr>);
          corr0 = Xty s1
      in bindE (index_max (map abs corr0)) (\<lambda>(max_corr0, change_ind0).
         Inr \<lparr>obj = s1\<lparr>beta_path := beta_path s1 @ [beta0],
                       lambda_path := lambda_path s1 @ [max_corr0]\<rparr>,
              beta = beta0, y_hat = y_hat0, kick_out = False, corr = corr0,
              change_ind = change_ind0, max_corr = max_corr0, R_chol = []\<rparr>))"

text \<open>The head of an iteration: the flagged variable leaves, or the chosen one enters.\<close>

definition enter_or_leave :: "lstate \<Rightarrow> fault + lstate" where
  "enter_or_leave t =
     (let s = obj t in
      if kick_out t then
        bindE (if use_cholesky s then CholeskyDelete (R_chol t) (change_ind t)
               else Inr (R_chol t)) (\<lambda>R'.
        bindE (Deactivate s (change_ind t)) (\<lambda>s'.
        Inr (t\<lparr>kick_out := False, R_chol := R', obj := s'\<rparr>)))
      else
        bindE (if use_cholesky s then
                 bindE (mapE (\<lambda>i. bindE (nthE (active_set s) (int i)) (\<lambda>a.
                                   bindE (colE (X_f s) (int a)) (\<lambda>ca.
                                   bindE (colE (X_f s) (int (change_ind t))) (\<lambda>cc.
                                   dotE ca cc))))
                          [0..<n_active s]) (\<lambda>new_Gram_col.
                 bindE (colE (X_f s) (int (change_ind t))) (\<lambda>new_x.
                 CholeskyInsert s (R_chol t) new_x new_Gram_col))
               else Inr (R_chol t)) (\<lambda>R'.
        bindE (Activate s (change_ind t)) (\<lambda>s'.
        Inr (t\<lparr>R_chol := R', obj := s'\<rparr>))))"

text \<open>The signs of the correlations: \<open>0 / 0\<close> is NaN.\<close>

definition signs :: "lstate \<Rightarrow> fault + vec" where
  "signs t =
     mapE (\<lambda>i. bindE (nthE (active_set (obj t)) (int i)) (\<lambda>a.
                bindE (nthE (corr t) (int a)) (\<lambda>c.
                if c = 0 then Inl NotFinite else Inr (c / \<bar>c\<bar>))))
       [0..<n_active (obj t)]"

text \<open>
  \<^verbatim>\<open>normalization = 1.0 / sqrt(q)\<close>: a negative \<open>q\<close> gives NaN and \<open>q = 0\<close> an infinity.
\<close>

definition normalize :: "real \<Rightarrow> fault + real" where
  "normalize q = (if q \<le> 0 then Inl NotFinite else Inr (1 / sqrt q))"

text \<open>The direction in parameter space: \<open>(beta_direction, normalization)\<close>.\<close>

definition direction :: "solver \<Rightarrow> lstate \<Rightarrow> vec \<Rightarrow> fault + vec \<times> real" where
  "direction solve t sv =
     (let s = obj t in
      if use_cholesky s then
        bindE (solve_trimatl_trans (R_chol t) sv) (\<lambda>w.
        bindE (solve_upper (R_chol t) w) (\<lambda>unnormalized_beta_direction.
        bindE (dotE sv unnormalized_beta_direction) (\<lambda>q.
        bindE (normalize q) (\<lambda>normalization.
        Inr (map (\<lambda>x. normalization * x) unnormalized_beta_direction, normalization)))))
      else
        bindE (mapE (\<lambda>j. mapE (\<lambda>i.
                        bindE (nthE (active_set s) (int i)) (\<lambda>ai.
                        bindE (nthE (active_set s) (int j)) (\<lambda>aj.
                        bindE (elem (Gram s) (int ai) (int aj)) (\<lambda>g.
                        Inr (g * sv ! j * sv ! i))))) [0..<n_active s])
                 [0..<n_active s]) (\<lambda>A.
        bindE (solve A (replicate (n_active s) 1)) (\<lambda>unnormalized_beta_direction.
        if length unnormalized_beta_direction \<noteq> n_active s then Inl SolveError
        else
          bindE (normalize (sum_list unnormalized_beta_direction)) (\<lambda>normalization.
          Inr (map2 (\<lambda>x sg. normalization * x * sg) unnormalized_beta_direction sv,
               normalization)))))"

definition ComputeYHatDirection :: "lars \<Rightarrow> vec \<Rightarrow> fault + vec" where
  "ComputeYHatDirection s beta_direction =
     foldE (\<lambda>i y_hat_direction.
              bindE (nthE beta_direction (int i)) (\<lambda>b.
              bindE (nthE (active_set s) (int i)) (\<lambda>a.
              bindE (colE (X_f s) (int a)) (\<lambda>c.
              axpby 1 y_hat_direction b c))))
       [0..<n_active s] (replicate (n_f s) 0)"

text \<open>
  The minimum-ratio test over the inactive variables: \<open>(gamma, change_ind)\<close>. A quotient
  by zero is an infinity or NaN in the C++ and \<open>0\<close> in the logic; both fail the test
  \<^verbatim>\<open>(val > 0) && (val < gamma)\<close> for a finite \<open>gamma\<close>, so the candidate is skipped in both.
\<close>

definition inactive_bound :: "lstate \<Rightarrow> vec \<Rightarrow> real \<Rightarrow> fault + real \<times> nat" where
  "inactive_bound t y_hat_direction normalization =
     (let s = obj t;
          gamma0 = max_corr t / normalization
      in if n_active s < p_f s then
           foldE (\<lambda>ind (gamma, ci).
                    bindE (nthE (is_active s) (int ind)) (\<lambda>act.
                    if act then Inr (gamma, ci)
                    else
                      bindE (colE (X_f s) (int ind)) (\<lambda>c.
                      bindE (dotE c y_hat_direction) (\<lambda>dir_corr.
                      bindE (nthE (corr t) (int ind)) (\<lambda>corr_ind.
                      let val1 = (max_corr t - corr_ind) / (normalization - dir_corr);
                          val2 = (max_corr t + corr_ind) / (normalization + dir_corr);
                          (gamma1, ci1) = (if val1 > 0 \<and> val1 < gamma then (val1, ind)
                                           else (gamma, ci))
                      in Inr (if val2 > 0 \<and> val2 < gamma1 then (val2, ind)
                              else (gamma1, ci1)))))))
             [0..<p_f s] (gamma0, u32_minus_one)
         else Inr (gamma0, u32_minus_one))"

text \<open>
  The bound of the LASSO on the step: \<open>(lasso_bound_on_gamma, active_ind_to_kick_out)\<close>.
\<close>

definition lasso_bound :: "lstate \<Rightarrow> vec \<Rightarrow> fault + real \<times> nat" where
  "lasso_bound t beta_direction =
     foldE (\<lambda>i (lasso_bound_on_gamma, active_ind_to_kick_out).
              bindE (nthE (active_set (obj t)) (int i)) (\<lambda>a.
              bindE (nthE (beta t) (int a)) (\<lambda>b.
              bindE (nthE beta_direction (int i)) (\<lambda>d.
              let val = - b / d
              in Inr (if val > 0 \<and> val < lasso_bound_on_gamma then (val, i)
                      else (lasso_bound_on_gamma, active_ind_to_kick_out))))))
       [0..<n_active (obj t)] (DBL_MAX, u32_minus_one)"

text \<open>The step \<open>(gamma, change_ind, kick_out)\<close> of the iteration.\<close>

definition step_length :: "lstate \<Rightarrow> vec \<Rightarrow> vec \<Rightarrow> real \<Rightarrow> fault + real \<times> nat \<times> bool" where
  "step_length t beta_direction y_hat_direction normalization =
     bindE (inactive_bound t y_hat_direction normalization) (\<lambda>(gamma, ci).
     if lasso (obj t) then
       bindE (lasso_bound t beta_direction) (\<lambda>(lasso_bound_on_gamma, active_ind_to_kick_out).
       if lasso_bound_on_gamma < gamma
       then Inr (lasso_bound_on_gamma, active_ind_to_kick_out, True)
       else Inr (gamma, ci, kick_out t))
     else Inr (gamma, ci, kick_out t))"

text \<open>
  The end of an iteration: prediction, estimator, correlations and the two paths are
  updated, then the LASSO stopping test. The flag of the result says that the loop was
  left by \<^verbatim>\<open>break\<close>.
\<close>

definition update_estimate ::
    "lstate \<Rightarrow> vec \<Rightarrow> vec \<Rightarrow> real \<Rightarrow> real \<Rightarrow> fault + bool \<times> lstate" where
  "update_estimate t beta_direction y_hat_direction normalization gamma =
     (let s = obj t in
      bindE (axpby 1 (y_hat t) gamma y_hat_direction) (\<lambda>y_hat'.
      bindE (foldE (\<lambda>i b.
                bindE (nthE (active_set s) (int i)) (\<lambda>a.
                bindE (nthE b (int a)) (\<lambda>ba.
                bindE (nthE beta_direction (int i)) (\<lambda>d.
                updE b (int a) (ba + gamma * d)))))
              [0..<n_active s] (beta t)) (\<lambda>beta'.
      bindE (axpby 1 (Xty s) (- 1) (map (\<lambda>c. dot c y_hat') (X_f s))) (\<lambda>corr'.
      let max_corr' = max_corr t - gamma * normalization;
          s' = s\<lparr>beta_path := beta_path s @ [beta'],
                 lambda_path := lambda_path s @ [max_corr']\<rparr>;
          t' = t\<lparr>obj := s', beta := beta', y_hat := y_hat', corr := corr',
                 max_corr := max_corr'\<rparr>
      in if lasso s' \<and> max_corr' \<le> desired_lambda s' then
           bindE (InterpolateBeta s' max_corr') (\<lambda>s''. Inr (True, t'\<lparr>obj := s''\<rparr>))
         else Inr (False, t')))))"

text \<open>The body of the main loop.\<close>

definition DoLARS_body :: "solver \<Rightarrow> lstate \<Rightarrow> fault + bool \<times> lstate" where
  "DoLARS_body solve t =
     bindE (enter_or_leave t) (\<lambda>t1.
     bindE (signs t1) (\<lambda>sv.
     bindE (direction solve t1 sv) (\<lambda>(beta_direction, normalization).
     bindE (ComputeYHatDirection (obj t1) beta_direction) (\<lambda>y_hat_direction.
     bindE (step_length t1 beta_direction y_hat_direction normalization) (\<lambda>(gamma, ci, ko).
     update_estimate (t1\<lparr>change_ind := ci, kick_out := ko\<rparr>)
       beta_direction y_hat_direction normalization gamma)))))"

definition loop_guard :: "lstate \<Rightarrow> bool" where
  "loop_guard t \<longleftrightarrow> n_active (obj t) < p_f (obj t) \<and> max_corr t > EPS"

text \<open>
  The main loop, with a bound on the number of iterations: \<open>None\<close> says that the bound was
  reached with the guard still true.
\<close>

fun DoLARS_loop :: "solver \<Rightarrow> nat \<Rightarrow> lstate \<Rightarrow> (fault + lstate) option" where
  "DoLARS_loop solve 0 t = (if loop_guard t then None else Some (Inr t))"
| "DoLARS_loop solve (Suc fuel) t =
     (if loop_guard t then
        (case DoLARS_body solve t of
           Inl e \<Rightarrow> Some (Inl e)
         | Inr (stop, t') \<Rightarrow> if stop then Some (Inr t') else DoLARS_loop solve fuel t')
      else Some (Inr t))"

definition DoLARS :: "solver \<Rightarrow> nat \<Rightarrow> lars \<Rightarrow> (fault + lars) option" where
  "DoLARS solve fuel s =
     (case DoLARS_init s of
        Inl e \<Rightarrow> Some (Inl e)
      | Inr t \<Rightarrow> map_option (map_sum id obj) (DoLARS_loop solve fuel t))"

definition DoLARS_lambda :: "solver \<Rightarrow> nat \<Rightarrow> lars \<Rightarrow> real \<Rightarrow> (fault + lars) option" where
  "DoLARS_lambda solve fuel s dl = DoLARS solve fuel (SetDesiredLambda s dl)"

text \<open>The ratio of the LASSO test at the active position \<open>i\<close>.\<close>

definition lasso_ratio :: "lstate \<Rightarrow> vec \<Rightarrow> nat \<Rightarrow> real" where
  "lasso_ratio t beta_direction i =
     - beta t ! (active_set (obj t) ! i) / beta_direction ! i"

section \<open>Invariants of a run\<close>





definition nonincreasing :: "real list \<Rightarrow> bool" where
  "nonincreasing xs \<longleftrightarrow> sorted_wrt (\<lambda>a b. b \<le> a) xs"

text \<open>
  The two paths during the run that started from the object \<open>s0\<close>: the paths of \<open>s0\<close> are
  still at the front and were of equal length, both paths got the same number of new
  entries, at least one, the new regularization values do not increase, and the last one
  is the running maximal correlation.
\<close>

definition path_inv :: "lars \<Rightarrow> lstate \<Rightarrow> bool" where
  "path_inv s0 t \<longleftrightarrow>
     length (beta_path s0) = length (lambda_path s0) \<and>
     (\<exists>bs ls. beta_path (obj t) = beta_path s0 @ bs \<and> lambda_path (obj t) = lambda_path s0 @ ls \<and>
        length bs = length ls \<and> ls \<noteq> [] \<and> nonincreasing ls \<and> last ls = max_corr t)"

section \<open>Concrete instances\<close>

text \<open>Objects used to run the definitions on explicit inputs.\<close>

definition raw0 :: lars where
  "raw0 = \<lparr>X_f = [], y_f = [], n_f = 0, p_f = 0, Gram = [], Xty = [], use_cholesky = False,
     lasso = True, desired_lambda = 0, elastic_net = True, lambda_2 = 0, beta_path = [],
     lambda_path = [], n_active = 0, active_set = [], is_active = []\<rparr>"

definition after5 :: lars where
  "after5 = \<lparr>X_f = [[1, 2]], y_f = [3, 4], n_f = 2, p_f = 1, Gram = [], Xty = [11],
     use_cholesky = True, lasso = True, desired_lambda = 7, elastic_net = True, lambda_2 = 2,
     beta_path = [], lambda_path = [], n_active = 0, active_set = [], is_active = [False]\<rparr>"

definition after3 :: lars where
  "after3 = \<lparr>X_f = [[2]], y_f = [3], n_f = 1, p_f = 1, Gram = [[6]], Xty = [6],
     use_cholesky = False, lasso = True, desired_lambda = 7, elastic_net = True, lambda_2 = 2,
     beta_path = [], lambda_path = [], n_active = 0, active_set = [], is_active = [False]\<rparr>"

definition pre_interp :: lars where
  "pre_interp = \<lparr>X_f = [[1, 0], [0, 1]], y_f = [2, 4], n_f = 2, p_f = 2, Gram = [],
     Xty = [2, 4], use_cholesky = True, lasso = True, desired_lambda = 4, elastic_net = False,
     lambda_2 = 0, beta_path = [[0, 0], [2, 4]], lambda_path = [5, 3], n_active = 1,
     active_set = [1], is_active = [False, True]\<rparr>"

definition updx0 :: lars where
  "updx0 = \<lparr>X_f = [[1], [1]], y_f = [1], n_f = 1, p_f = 2, Gram = [[1, 1], [1, 1]],
     Xty = [1, 1], use_cholesky = False, lasso = False, desired_lambda = 0,
     elastic_net = False, lambda_2 = 0, beta_path = [], lambda_path = [], n_active = 0,
     active_set = [], is_active = [False, False]\<rparr>"

definition updx1 :: lars where
  "updx1 = \<lparr>X_f = [[1, 0], [1, 1], [0, 2]], y_f = [1, 1], n_f = 2, p_f = 3,
     Gram = [[4, 1, 0], [1, 5, 2], [0, 2, 7]],
     Xty = [1, 2, 2], use_cholesky = False, lasso = False, desired_lambda = 0,
     elastic_net = True, lambda_2 = 3, beta_path = [], lambda_path = [], n_active = 0,
     active_set = [], is_active = [False, False, False]\<rparr>"




definition one_col :: lars where
  "one_col = \<lparr>X_f = [[3, 4]], y_f = [6, 8], n_f = 2, p_f = 1, Gram = [], Xty = [50],
     use_cholesky = True, lasso = False, desired_lambda = 0, elastic_net = False,
     lambda_2 = 0, beta_path = [], lambda_path = [], n_active = 0, active_set = [],
     is_active = [False]\<rparr>"

definition no_solver :: solver where
  "no_solver A b = Inl SolveError"


definition one_col_final :: lstate where
  "one_col_final = \<lparr>obj = one_col\<lparr>lambda_2 := - 1, beta_path := [[0], [2]],
       lambda_path := [50, 0], n_active := 1, active_set := [0], is_active := [True]\<rparr>,
     beta = [2], y_hat = [6, 8], kick_out = False, corr = [0], change_ind = 4294967295,
     max_corr = 0, R_chol = [[5]]\<rparr>"







definition one_col_again :: lars where
  "one_col_again = (obj one_col_final)\<lparr>beta_path := [[0], [2], [0]],
     lambda_path := [50, 0, 50]\<rparr>"

definition one_col_reinit :: lars where
  "one_col_reinit = (obj one_col_final)\<lparr>n_active := 0, active_set := [],
     is_active := [False]\<rparr>"

definition one_col_again_init :: lstate where
  "one_col_again_init = \<lparr>obj = one_col_again, beta = [0], y_hat = [0, 0], kick_out = False,
     corr = [50], change_ind = 0, max_corr = 50, R_chol = []\<rparr>"

text \<open>
  The number under the square root of \<^verbatim>\<open>CholeskyInsert\<close>, \<^verbatim>\<open>sq_norm_new_x - dot(R_k, R_k)\<close>.
\<close>

definition radicand :: "lars \<Rightarrow> vec \<Rightarrow> vec \<Rightarrow> real" where
  "radicand s new_x R_k =
     (if elastic_net s then dot new_x new_x + lambda_2 s else dot new_x new_x) - dot R_k R_k"

text \<open>An object without Elastic Net.\<close>

definition plain0 :: lars where
  "plain0 = raw0\<lparr>elastic_net := False\<rparr>"

definition lasso_obj :: lars where
  "lasso_obj = \<lparr>X_f = [[1, 0, 0], [0, 3 / 4, 0], [0, 0, 1]], y_f = [3, 16 / 3, 1], n_f = 3,
     p_f = 3, Gram = [], Xty = [3, 4, 1], use_cholesky = True, lasso = True,
     desired_lambda = 0, elastic_net = False, lambda_2 = - 1,
     beta_path = [[0, 0, 0], [- 1, 0, 0]], lambda_path = [5, 4], n_active = 1,
     active_set = [0], is_active = [True, False, False]\<rparr>"

definition lasso_pre :: lstate where
  "lasso_pre = \<lparr>obj = lasso_obj, beta = [- 1, 0, 0], y_hat = [- 1, 0, 0], kick_out = False,
     corr = [4, 4, 1], change_ind = 1, max_corr = 4, R_chol = [[1]]\<rparr>"

definition lasso_flag :: lstate where
  "lasso_flag = \<lparr>obj = lasso_obj\<lparr>beta_path := [[0, 0, 0], [- 1, 0, 0], [0, 16 / 9, 0]],
       lambda_path := [5, 4, 3], n_active := 2, active_set := [0, 1],
       is_active := [True, True, False]\<rparr>,
     beta = [0, 16 / 9, 0], y_hat = [0, 4 / 3, 0], kick_out = True, corr = [3, 3, 1],
     change_ind = 0, max_corr = 3, R_chol = [[1, 0], [0, 3 / 4]]\<rparr>"

definition lasso_post :: lstate where
  "lasso_post = \<lparr>obj = lasso_obj\<lparr>beta_path := [[0, 0, 0], [- 1, 0, 0], [0, 16 / 9, 0],
                                            [0, 16 / 3, 0]],
       lambda_path := [5, 4, 3, 1], n_active := 1, active_set := [1],
       is_active := [False, True, False]\<rparr>,
     beta = [0, 16 / 3, 0], y_hat = [0, 4, 0], kick_out = False, corr = [3, 1, 1],
     change_ind = 2, max_corr = 1, R_chol = [[3 / 4]]\<rparr>"

definition lasso_mid :: lstate where
  "lasso_mid = lasso_pre\<lparr>R_chol := [[1, 0], [0, 3 / 4]],
     obj := lasso_obj\<lparr>n_active := 2, active_set := [0, 1],
              is_active := [True, True, False]\<rparr>\<rparr>"

section \<open>Basic facts\<close>

lemma bindE_Inr [simp]: "bindE (Inr x) f = f x"
  by (simp add: bindE_def)

lemma bindE_Inl [simp]: "bindE (Inl e) f = Inl e"
  by (simp add: bindE_def)

lemma bindE_eq_Inr: "bindE m f = Inr y \<longleftrightarrow> (\<exists>x. m = Inr x \<and> f x = Inr y)"
  by (cases m) simp_all

section \<open>The three-argument \<^verbatim>\<open>Init\<close> and the mode fields\<close>

lemma Init3_modes:
  "Init3 s X y uc = Inr s' \<Longrightarrow>
     lasso s' = lasso s \<and> elastic_net s' = elastic_net s \<and>
     desired_lambda s' = desired_lambda s \<and> lambda_2 s' = lambda_2 s"
  by (auto simp: Init3_def Let_def ComputeXty_def ComputeGram_def split: if_splits)

text \<open>
  Claim C10. The three-argument \<^verbatim>\<open>Init\<close> leaves \<^verbatim>\<open>lasso_\<close>, \<^verbatim>\<open>elastic_net_\<close>,
  \<^verbatim>\<open>desired_lambda_\<close> and \<^verbatim>\<open>lambda_2_\<close> as they were. Only the constructor sets the two
  flags to false. So an object initialised with the four-argument or the five-argument
  overload and then with the three-argument one is still in LASSO mode (and in Elastic
  Net mode) with the old target and the old ridge coefficient.
\<close>

theorem Init3_frame:
  "(Init3 s X y uc = Inr s' \<longrightarrow>
      lasso s' = lasso s \<and> elastic_net s' = elastic_net s \<and>
      desired_lambda s' = desired_lambda s \<and> lambda_2 s' = lambda_2 s) \<and>
   (Init4 t Xa ya uca dl = Inr t' \<longrightarrow> Init3 t' Xb yb ucb = Inr t'' \<longrightarrow>
      lasso t'' \<and> desired_lambda t'' = dl) \<and>
   (Init5 w Xc yc ucc dlc lc = Inr w' \<longrightarrow> Init3 w' Xd yd ucd = Inr w'' \<longrightarrow>
      lasso w'' \<and> desired_lambda w'' = dlc \<and> elastic_net w'' \<and> lambda_2 w'' = lc) \<and>
   \<not> lasso (Lars u) \<and> \<not> elastic_net (Lars u)"
proof -
  have a: "Init4 t X1 y1 uc1 dl = Inr t1 \<Longrightarrow> lasso t1 \<and> desired_lambda t1 = dl" for t X1 y1 uc1 dl t1
    using Init3_modes [of "t\<lparr>lasso := True, desired_lambda := dl\<rparr>" X1 y1 uc1 t1]
    by (simp add: Init4_def)
  have a': "Init4 t X1 y1 uc1 dl = Inr t1 \<Longrightarrow> elastic_net t1 = elastic_net t \<and> lambda_2 t1 = lambda_2 t" for t X1 y1 uc1 dl t1
    using Init3_modes [of "t\<lparr>lasso := True, desired_lambda := dl\<rparr>" X1 y1 uc1 t1]
    by (simp add: Init4_def)
  have b: "Init5 w Xc yc ucc dlc lc = Inr w1 \<Longrightarrow>
      lasso w1 \<and> desired_lambda w1 = dlc \<and> elastic_net w1 \<and> lambda_2 w1 = lc" for w1
    using a [of "w\<lparr>elastic_net := True, lambda_2 := lc\<rparr>" Xc yc ucc dlc w1]
      a' [of "w\<lparr>elastic_net := True, lambda_2 := lc\<rparr>" Xc yc ucc dlc w1]
    by (simp add: Init5_def)
  show ?thesis
    using Init3_modes a b by (auto simp: Lars_def)
qed

lemma Init5_run: "Init5 (Lars raw0) [[1, 2]] [3, 4] True 7 2 = Inr after5" 
  by (simp add: Init5_def Init4_def Init3_def Lars_def raw0_def ComputeXty_def n_rows_def n_cols_def Let_def after5_def)

lemma Init3_run: "Init3 after5 [[2]] [3] False = Inr after3" 
  by (simp add: Init3_def ComputeXty_def ComputeGram_def n_rows_def n_cols_def Let_def after5_def after3_def)

theorem Init3_frame_witness:
  "Init5 (Lars raw0) [[1, 2]] [3, 4] True 7 2 = Inr after5 \<and>
   Init3 after5 [[2]] [3] False = Inr after3 \<and>
   lasso after3 \<and> desired_lambda after3 = 7 \<and> elastic_net after3 \<and> lambda_2 after3 = 2"
  using Init3_frame [where w = "Lars raw0" and Xc = "[[1, 2]]" and yc = "[3, 4]" and ucc = True
       and dlc = 7 and lc = 2 and w' = after5 and Xd = "[[2]]" and yd = "[3]" and ucd = False
       and w'' = after3] Init5_run Init3_run
  by simp

section \<open>Interpolation\<close>

lemma nthE_nat: "i < length xs \<Longrightarrow> nthE xs (int i) = Inr (xs ! i)"
  by (simp add: nthE_def)

lemma updE_nat: "i < length xs \<Longrightarrow> updE xs (int i) v = Inr (xs[i := v])"
  by (simp add: updE_def)

lemma InterpolateBeta_eq:
  assumes len: "length (beta_path s) = Suc (Suc k)" "length (lambda_path s) = Suc (Suc k)"
    and ne: "lambda_path s ! k \<noteq> ult"
    and dim: "length (beta_path s ! k) = length (beta_path s ! Suc k)"
  shows "InterpolateBeta s ult =
           Inr (s\<lparr>beta_path := (beta_path s)
                     [Suc k := map2 (\<lambda>x y. (1 - (lambda_path s ! k - desired_lambda s) / (lambda_path s ! k - ult)) * x
                         + (lambda_path s ! k - desired_lambda s) / (lambda_path s ! k - ult) * y)
                          (beta_path s ! k) (beta_path s ! Suc k)],
                  lambda_path := (lambda_path s)[Suc k := desired_lambda s]\<rparr>)"
proof -
  have i2: "int (length (beta_path s)) - 2 = int k" "int (length (beta_path s)) - 1 = int (Suc k)"
    using len by simp_all
  have a: "nthE (lambda_path s) (int k) = Inr (lambda_path s ! k)"
    "nthE (beta_path s) (int k) = Inr (beta_path s ! k)"
    "nthE (beta_path s) (int (Suc k)) = Inr (beta_path s ! Suc k)"
    using len by (simp_all add: nthE_nat del: of_nat_Suc)
  have b: "updE (beta_path s) (int (Suc k)) v = Inr ((beta_path s)[Suc k := v])" for v
    using len by (simp add: updE_nat del: of_nat_Suc)
  have c: "updE (lambda_path s) (int (Suc k)) v = Inr ((lambda_path s)[Suc k := v])" for v
    using len by (simp add: updE_nat del: of_nat_Suc)
  show ?thesis
    unfolding InterpolateBeta_def Let_def i2 a bindE_Inr
    using ne dim by (simp add: axpby_def b c del: of_nat_Suc)
qed

text \<open>
  Claim C6. With at least two entries on both paths, the last two regularization values
  different and \<^verbatim>\<open>InterpolateBeta\<close> called on the last of them (as the stopping test of
  \<^verbatim>\<open>DoLARS\<close> does), the last coefficient vector becomes
  \<open>(1 - interp) * beta_prev + interp * beta_last\<close> with
  \<open>interp = (lambda_prev - desired_lambda) / (lambda_prev - lambda_last)\<close>, and the last
  regularization value becomes \<open>desired_lambda\<close>. For the values 5 and 3 and the target 4
  this is the midpoint of the two vectors, recorded at 4.
\<close>

theorem InterpolateBeta_exact:
  assumes len: "length (beta_path s) = m" "length (lambda_path s) = m" "2 \<le> m"
    and prev: "lambda_path s ! (m - 2) = lambda_prev" "beta_path s ! (m - 2) = beta_prev"
    and lst: "lambda_path s ! (m - 1) = lambda_last" "beta_path s ! (m - 1) = beta_last"
    and ne: "lambda_prev \<noteq> lambda_last"
    and dim: "length beta_prev = length beta_last"
    and interp: "interp = (lambda_prev - desired_lambda s) / (lambda_prev - lambda_last)"
  shows "InterpolateBeta s lambda_last =
           Inr (s\<lparr>beta_path := (beta_path s)
                     [m - 1 := map2 (\<lambda>x y. (1 - interp) * x + interp * y) beta_prev beta_last],
                  lambda_path := (lambda_path s)[m - 1 := desired_lambda s]\<rparr>) \<and>
         (lambda_prev = 5 \<and> lambda_last = 3 \<and> desired_lambda s = 4 \<longrightarrow>
          InterpolateBeta s lambda_last =
           Inr (s\<lparr>beta_path := (beta_path s)
                     [m - 1 := map2 (\<lambda>x y. 0.5 * x + 0.5 * y) beta_prev beta_last],
                  lambda_path := (lambda_path s)[m - 1 := 4]\<rparr>))"
proof -
  obtain k where k: "m = Suc (Suc k)"
    using len(3) by (metis Suc_le_D numeral_2_eq_2 Suc_le_mono)
  have mk: "m - 2 = k" "m - 1 = Suc k"
    using k by simp_all
  have l1: "length (beta_path s) = Suc (Suc k)" and l2: "length (lambda_path s) = Suc (Suc k)"
    using len k by simp_all
  have n1: "lambda_path s ! k \<noteq> lambda_last"
    using ne prev(1) mk by simp
  have d1: "length (beta_path s ! k) = length (beta_path s ! Suc k)"
    using dim prev(2) lst(2) mk by simp
  have p1: "lambda_path s ! k = lambda_prev" "beta_path s ! k = beta_prev"
    "beta_path s ! Suc k = beta_last"
    using prev lst mk by simp_all
  have g: "InterpolateBeta s lambda_last =
           Inr (s\<lparr>beta_path := (beta_path s)
                     [m - 1 := map2 (\<lambda>x y. (1 - interp) * x + interp * y) beta_prev beta_last],
                  lambda_path := (lambda_path s)[m - 1 := desired_lambda s]\<rparr>)"
    unfolding InterpolateBeta_eq [OF l1 l2 n1 d1] mk interp p1 ..
  have i2: "interp = 1 / 2" if "lambda_prev = 5" "lambda_last = 3" "desired_lambda s = 4"
    unfolding interp that by simp
  have h: "(\<lambda>x y. (1 - interp) * x + interp * y) = (\<lambda>x y. 0.5 * x + 0.5 * y)"
    if "lambda_prev = 5 \<and> lambda_last = 3 \<and> desired_lambda s = 4"
    unfolding i2 [OF that [THEN conjunct1] that [THEN conjunct2, THEN conjunct1]
        that [THEN conjunct2, THEN conjunct2]]
    by (intro ext) simp
  show ?thesis
  proof (intro conjI impI)
    show "InterpolateBeta s lambda_last =
           Inr (s\<lparr>beta_path := (beta_path s)
                     [m - 1 := map2 (\<lambda>x y. (1 - interp) * x + interp * y) beta_prev beta_last],
                  lambda_path := (lambda_path s)[m - 1 := desired_lambda s]\<rparr>)"
      by (rule g)
  next
    assume a: "lambda_prev = 5 \<and> lambda_last = 3 \<and> desired_lambda s = 4"
    show "InterpolateBeta s lambda_last =
           Inr (s\<lparr>beta_path := (beta_path s)
                     [m - 1 := map2 (\<lambda>x y. 0.5 * x + 0.5 * y) beta_prev beta_last],
                  lambda_path := (lambda_path s)[m - 1 := 4]\<rparr>)"
      using g a unfolding h [OF a] by simp
  qed
qed

theorem InterpolateBeta_exact_witness:
  "InterpolateBeta pre_interp 3 =
     Inr (pre_interp\<lparr>beta_path := [[0, 0], [1, 2]], lambda_path := [5, 4]\<rparr>)"
  using InterpolateBeta_exact [of pre_interp 2 5 "[0, 0]" 3 "[2, 4]" "1 / 2"]
  by (simp add: pre_interp_def)

section \<open>Warm-start column replacement\<close>

lemma foldE_append: "foldE f (xs @ ys) a = bindE (foldE f xs a) (foldE f ys)"
  by (induction xs arbitrary: a) (auto simp: bindE_def split: sum.splits)

lemma foldE_inv:
  assumes "I [] a"
    and "\<And>pre x post b. xs = pre @ x # post \<Longrightarrow> I pre b \<Longrightarrow> \<exists>b'. f x b = Inr b' \<and> I (pre @ [x]) b'"
  shows "\<exists>b. foldE f xs a = Inr b \<and> I xs b"
  using assms(2)
proof (induction xs rule: rev_induct)
  case Nil
  show ?case using assms(1) by simp
next
  case (snoc x xs)
  have "\<exists>b. foldE f xs a = Inr b \<and> I xs b"
  proof (rule snoc.IH)
    fix pre y post b
    assume "xs = pre @ y # post" "I pre b"
    then show "\<exists>b'. f y b = Inr b' \<and> I (pre @ [y]) b'"
      using snoc.prems [of pre y "post @ [x]" b] by simp
  qed
  then obtain b where b: "foldE f xs a = Inr b" "I xs b" by blast
  from snoc.prems [of xs x "[]" b] b(2) obtain b' where "f x b = Inr b'" "I (xs @ [x]) b'"
    by auto
  with b(1) show ?case by (simp add: foldE_append)
qed

lemma nthE_ok: "0 \<le> i \<Longrightarrow> i < int (length xs) \<Longrightarrow> nthE xs i = Inr (xs ! nat i)"
  by (simp add: nthE_def)

lemma updE_ok: "0 \<le> i \<Longrightarrow> i < int (length xs) \<Longrightarrow> updE xs i v = Inr (xs[nat i := v])"
  by (simp add: updE_def)

lemma set_elem_ok:
  assumes "is_mat r c M" "0 \<le> i" "i < int r" "0 \<le> j" "j < int c"
  shows "set_elem M i j v = Inr (M[nat j := (M ! nat j)[nat i := v]])"
proof -
  have "length (M ! nat j) = r" using assms by (simp add: is_mat_def)
  then show ?thesis using assms
    by (simp add: set_elem_def colE_def nthE_ok updE_ok is_mat_def)
qed

lemma elem_ok:
  assumes "is_mat r c M" "0 \<le> i" "i < int r" "0 \<le> j" "j < int c"
  shows "elem M i j = Inr (M ! nat j ! nat i)"
proof -
  have "length (M ! nat j) = r" using assms by (simp add: is_mat_def)
  then show ?thesis using assms
    by (simp add: elem_def nthE_ok is_mat_def)
qed

lemma is_mat_upd:
  assumes "is_mat r c M" "length v = r"
  shows "is_mat r c (M[j := v])"
  using assms by (auto simp: is_mat_def dest!: set_update_subset_insert [THEN subsetD])

lemma is_mat_upd_elem:
  assumes "is_mat r c M"
  shows "is_mat r c (M[j := (M ! j)[i := v]])"
proof (cases "j < length M")
  case True
  then show ?thesis using assms by (intro is_mat_upd) (auto simp: is_mat_def)
next
  case False
  then show ?thesis using assms by (simp add: list_update_beyond not_less)
qed

lemma nth_upd_elem:
  assumes "is_mat r c M" "a < r" "b < c"
  shows "M[j := (M ! j)[i := v]] ! b ! a = (if a = i \<and> b = j then v else M ! b ! a)"
proof (cases "b = j")
  case True
  then show ?thesis using assms by (simp add: is_mat_def nth_list_update)
next
  case False
  then show ?thesis using assms by (simp add: is_mat_def)
qed

text \<open>The loops of \<^verbatim>\<open>UpdateXty\<close>, \<^verbatim>\<open>UpdateGram\<close> and \<^verbatim>\<open>UpdateX\<close>.\<close>

lemma UpdateXty_loop:
  assumes X: "is_mat n p X" and y: "length y = n" and v: "length v = p"
    and ci: "\<forall>i \<in> set col_inds. 0 \<le> i \<and> i < int p"
  shows "\<exists>w. foldE (\<lambda>i v. bindE (colE X i) (\<lambda>ci. bindE (dotE ci y) (\<lambda>d. updE v i d)))
                col_inds v = Inr w \<and> length w = p \<and>
             (\<forall>a < p. w ! a = (if int a \<in> set col_inds then dot (X ! a) y else v ! a))"
proof (rule foldE_inv [where I = "\<lambda>done w. length w = p \<and>
             (\<forall>a < p. w ! a = (if int a \<in> set done then dot (X ! a) y else v ! a))"])
  show "length v = p \<and> (\<forall>a<p. v ! a = (if int a \<in> set [] then dot (X ! a) y else v ! a))"
    using v by simp
next
  fix pre x post b
  assume xs: "col_inds = pre @ x # post"
    and I: "length b = p \<and> (\<forall>a<p. b ! a = (if int a \<in> set pre then dot (X ! a) y else v ! a))"
  have x: "0 \<le> x" "x < int p" using ci xs by auto
  then have c: "colE X x = Inr (X ! nat x)" using X by (simp add: colE_def nthE_ok is_mat_def)
  have "length (X ! nat x) = n" using X x by (simp add: is_mat_def)
  then have d: "dotE (X ! nat x) y = Inr (dot (X ! nat x) y)" using y by (simp add: dotE_def)
  have u: "updE b x (dot (X ! nat x) y) = Inr (b[nat x := dot (X ! nat x) y])"
    using x I by (simp add: updE_ok)
  show "\<exists>b'. bindE (colE X x) (\<lambda>ci. bindE (dotE ci y) (\<lambda>d. updE b x d)) = Inr b' \<and>
            (length b' = p \<and>
        (\<forall>a<p. b' ! a = (if int a \<in> set (pre @ [x]) then dot (X ! a) y else v ! a)))"
    using I x by (auto simp: c d u nth_list_update)
qed

lemma UpdateGram_inner:
  assumes X: "is_mat n p X" and G: "is_mat p p G"
    and ci: "\<forall>j \<in> set cs. 0 \<le> j \<and> j < int p" and i: "0 \<le> i" "i < int p"
  shows "\<exists>H. foldE (\<lambda>j G. bindE (colE X i) (\<lambda>ci. bindE (colE X j) (\<lambda>cj.
                   set_elem G i j (dot ci cj)))) cs G = Inr H \<and> is_mat p p H \<and>
             (\<forall>a < p. \<forall>b < p. H ! b ! a =
                (if int a = i \<and> int b \<in> set cs then dot (X ! a) (X ! b) else G ! b ! a))"
proof (rule foldE_inv [where I = "\<lambda>done H. is_mat p p H \<and>
             (\<forall>a < p. \<forall>b < p. H ! b ! a =
                (if int a = i \<and> int b \<in> set done then dot (X ! a) (X ! b) else G ! b ! a))"])
  show "is_mat p p G \<and> (\<forall>a<p. \<forall>b<p. G ! b ! a =
         (if int a = i \<and> int b \<in> set [] then dot (X ! a) (X ! b) else G ! b ! a))"
    using G by simp
next
  fix pre x post H
  assume xs: "cs = pre @ x # post"
    and I: "is_mat p p H \<and> (\<forall>a<p. \<forall>b<p. H ! b ! a =
               (if int a = i \<and> int b \<in> set pre then dot (X ! a) (X ! b) else G ! b ! a))"
  have x: "0 \<le> x" "x < int p" using ci xs by auto
  have c: "colE X x = Inr (X ! nat x)" "colE X i = Inr (X ! nat i)"
    using X x i by (simp_all add: colE_def nthE_ok is_mat_def)
  have s: "set_elem H i x v = Inr (H[nat x := (H ! nat x)[nat i := v]])" for v
    using I x i by (intro set_elem_ok [where r = p and c = p]) auto
  have m: "is_mat p p (H[nat x := (H ! nat x)[nat i := v]])" for v
    using I by (simp add: is_mat_upd_elem)
  have e: "H[nat x := (H ! nat x)[nat i := v]] ! b ! a =
            (if a = nat i \<and> b = nat x then v else H ! b ! a)" if "a < p" "b < p" for a b v
    using I that by (simp add: nth_upd_elem [where r = p and c = p])
  have eqs: "int a = i \<longleftrightarrow> a = nat i" "int a = x \<longleftrightarrow> a = nat x" for a
    using i x by auto
  show "\<exists>b'. bindE (colE X i) (\<lambda>ci. bindE (colE X x) (\<lambda>cj. set_elem H i x (dot ci cj))) = Inr b' \<and>
          (is_mat p p b' \<and> (\<forall>a<p. \<forall>b<p. b' ! b ! a =
               (if int a = i \<and> int b \<in> set (pre @ [x]) then dot (X ! a) (X ! b) else G ! b ! a)))"
    using I by (auto simp: c s m e eqs)
qed

lemma UpdateGram_outer:
  assumes X: "is_mat n p X" and G: "is_mat p p G"
    and ci: "\<forall>j \<in> set cs. 0 \<le> j \<and> j < int p"
  shows "\<exists>H. foldE (\<lambda>i. foldE (\<lambda>j G. bindE (colE X i) (\<lambda>ci. bindE (colE X j) (\<lambda>cj.
                   set_elem G i j (dot ci cj)))) cs) cs G = Inr H \<and> is_mat p p H \<and>
             (\<forall>a < p. \<forall>b < p. H ! b ! a =
                (if int a \<in> set cs \<and> int b \<in> set cs then dot (X ! a) (X ! b) else G ! b ! a))"
proof (rule foldE_inv [where I = "\<lambda>done H. is_mat p p H \<and>
             (\<forall>a < p. \<forall>b < p. H ! b ! a =
                (if int a \<in> set done \<and> int b \<in> set cs then dot (X ! a) (X ! b) else G ! b ! a))"])
  show "is_mat p p G \<and> (\<forall>a<p. \<forall>b<p. G ! b ! a =
         (if int a \<in> set [] \<and> int b \<in> set cs then dot (X ! a) (X ! b) else G ! b ! a))"
    using G by simp
next
  fix pre x post H
  assume xs: "cs = pre @ x # post"
    and I: "is_mat p p H \<and> (\<forall>a<p. \<forall>b<p. H ! b ! a =
               (if int a \<in> set pre \<and> int b \<in> set cs then dot (X ! a) (X ! b) else G ! b ! a))"
  have x: "0 \<le> x" "x < int p" using ci xs by auto
  from UpdateGram_inner [OF X _ ci x, of H] I obtain K where
    K: "foldE (\<lambda>j G. bindE (colE X x) (\<lambda>ci. bindE (colE X j) (\<lambda>cj.
                   set_elem G x j (dot ci cj)))) cs H = Inr K" "is_mat p p K"
       "\<forall>a < p. \<forall>b < p. K ! b ! a =
                (if int a = x \<and> int b \<in> set cs then dot (X ! a) (X ! b) else H ! b ! a)"
    by blast
  show "\<exists>b'. foldE (\<lambda>j G. bindE (colE X x) (\<lambda>ci. bindE (colE X j) (\<lambda>cj.
                   set_elem G x j (dot ci cj)))) cs H = Inr b' \<and>
          (is_mat p p b' \<and> (\<forall>a<p. \<forall>b<p. b' ! b ! a =
               (if int a \<in> set (pre @ [x]) \<and> int b \<in> set cs then dot (X ! a) (X ! b) else G ! b ! a)))"
    using K I by auto
qed

lemma UpdateGram_ridge:
  assumes G: "is_mat p p G"
    and ci: "\<forall>j \<in> set cs. 0 \<le> j \<and> j < int p" and d: "distinct cs"
  shows "\<exists>H. foldE (\<lambda>i G. bindE (elem G i i) (\<lambda>g. set_elem G i i (g + l2))) cs G = Inr H \<and>
             is_mat p p H \<and>
             (\<forall>a < p. \<forall>b < p. H ! b ! a =
                G ! b ! a + (if a = b \<and> int a \<in> set cs then l2 else 0))"
proof (rule foldE_inv [where I = "\<lambda>done H. is_mat p p H \<and>
             (\<forall>a < p. \<forall>b < p. H ! b ! a =
                G ! b ! a + (if a = b \<and> int a \<in> set done then l2 else 0))"])
  show "is_mat p p G \<and> (\<forall>a<p. \<forall>b<p. G ! b ! a =
         G ! b ! a + (if a = b \<and> int a \<in> set [] then l2 else 0))"
    using G by simp
next
  fix pre x post H
  assume xs: "cs = pre @ x # post"
    and I: "is_mat p p H \<and> (\<forall>a<p. \<forall>b<p. H ! b ! a =
               G ! b ! a + (if a = b \<and> int a \<in> set pre then l2 else 0))"
  have x: "0 \<le> x" "x < int p" using ci xs by auto
  have nx: "x \<notin> set pre" using d xs by auto
  have g: "elem H x x = Inr (H ! nat x ! nat x)"
    using I x by (intro elem_ok [where r = p and c = p]) auto
  have s: "set_elem H x x v = Inr (H[nat x := (H ! nat x)[nat x := v]])" for v
    using I x by (intro set_elem_ok [where r = p and c = p]) auto
  have m: "is_mat p p (H[nat x := (H ! nat x)[nat x := v]])" for v
    using I by (simp add: is_mat_upd_elem)
  have e: "H[nat x := (H ! nat x)[nat x := v]] ! b ! a =
            (if a = nat x \<and> b = nat x then v else H ! b ! a)" if "a < p" "b < p" for a b v
    using I that by (simp add: nth_upd_elem [where r = p and c = p])
  have eqs: "int a = x \<longleftrightarrow> a = nat x" for a
    using x by auto
  have np: "nat x < p" using x by auto
  show "\<exists>b'. bindE (elem H x x) (\<lambda>g. set_elem H x x (g + l2)) = Inr b' \<and>
          (is_mat p p b' \<and> (\<forall>a<p. \<forall>b<p. b' ! b ! a =
               G ! b ! a + (if a = b \<and> int a \<in> set (pre @ [x]) then l2 else 0)))"
    using I nx np x by (auto simp: g s m e eqs)
qed

lemma UpdateX_loop:
  assumes X: "is_mat n p X" and N: "is_mat n (length cs) new_cols"
    and ci: "\<forall>j \<in> set cs. 0 \<le> j \<and> j < int p" and d: "distinct cs"
  shows "\<exists>Y. foldE (\<lambda>i X. bindE (colE new_cols (int i)) (\<lambda>c. set_col X (cs ! i) c))
                [0..<length cs] X = Inr Y \<and> is_mat n p Y \<and>
             (\<forall>k < length cs. Y ! nat (cs ! k) = new_cols ! k) \<and>
             (\<forall>a < p. int a \<notin> set cs \<longrightarrow> Y ! a = X ! a)"
proof -
  have "\<exists>Y. foldE (\<lambda>i X. bindE (colE new_cols (int i)) (\<lambda>c. set_col X (cs ! i) c))
                [0..<length cs] X = Inr Y \<and> (is_mat n p Y \<and>
             (\<forall>k \<in> set [0..<length cs]. Y ! nat (cs ! k) = new_cols ! k) \<and>
             (\<forall>a < p. (\<forall>k \<in> set [0..<length cs]. cs ! k \<noteq> int a) \<longrightarrow> Y ! a = X ! a))"
  proof (rule foldE_inv [where I = "\<lambda>done Y. is_mat n p Y \<and>
             (\<forall>k \<in> set done. Y ! nat (cs ! k) = new_cols ! k) \<and>
             (\<forall>a < p. (\<forall>k \<in> set done. cs ! k \<noteq> int a) \<longrightarrow> Y ! a = X ! a)"])
    show "is_mat n p X \<and> (\<forall>k\<in>set []. X ! nat (cs ! k) = new_cols ! k) \<and>
          (\<forall>a<p. (\<forall>k\<in>set []. cs ! k \<noteq> int a) \<longrightarrow> X ! a = X ! a)"
      using X by simp
  next
    fix pre x post Y
    assume xs: "[0..<length cs] = pre @ x # post"
      and I: "is_mat n p Y \<and> (\<forall>k \<in> set pre. Y ! nat (cs ! k) = new_cols ! k) \<and>
             (\<forall>a < p. (\<forall>k \<in> set pre. cs ! k \<noteq> int a) \<longrightarrow> Y ! a = X ! a)"
    have "x \<in> set [0..<length cs]" unfolding xs by simp
    then have x: "x < length cs" by simp
    have "set pre \<subseteq> set [0..<length cs]" unfolding xs by auto
    then have pre: "\<forall>k \<in> set pre. k < length cs" by auto
    have "distinct (pre @ x # post)" using xs [symmetric] by (metis distinct_upt)
    then have nx: "x \<notin> set pre" by simp
    have cx: "0 \<le> cs ! x" "cs ! x < int p" using ci x by auto
    have c: "colE new_cols (int x) = Inr (new_cols ! x)"
      using N x by (simp add: colE_def nthE_nat is_mat_def)
    have ln: "length (new_cols ! x) = n" using N x by (simp add: is_mat_def)
    have ly: "length (Y ! nat (cs ! x)) = n" "length Y = p" using I cx by (simp_all add: is_mat_def)
    have sc: "set_col Y (cs ! x) (new_cols ! x) = Inr (Y[nat (cs ! x) := new_cols ! x])"
      using cx ln ly by (simp add: set_col_def)
    have m: "is_mat n p (Y[nat (cs ! x) := new_cols ! x])"
      using I ln by (simp add: is_mat_upd)
    have ne: "nat (cs ! k) \<noteq> nat (cs ! x)" if "k \<in> set pre" for k
    proof -
      have "k < length cs" "k \<noteq> x" using that pre nx by auto
      then have "cs ! k \<noteq> cs ! x" using d x by (simp add: nth_eq_iff_index_eq)
      moreover have "0 \<le> cs ! k" using ci \<open>k < length cs\<close> by auto
      ultimately show ?thesis using cx by auto
    qed
    have "Y[nat (cs ! x) := new_cols ! x] ! nat (cs ! k) = new_cols ! k" if "k \<in> set pre" for k
      using ne [OF that] I that by simp
    moreover have "Y[nat (cs ! x) := new_cols ! x] ! nat (cs ! x) = new_cols ! x"
      using cx ly by simp
    ultimately have "\<forall>k\<in>set (pre @ [x]). Y[nat (cs ! x) := new_cols ! x] ! nat (cs ! k) = new_cols ! k"
      by auto
    moreover have "\<forall>a<p. (\<forall>k\<in>set (pre @ [x]). cs ! k \<noteq> int a) \<longrightarrow>
                     Y[nat (cs ! x) := new_cols ! x] ! a = X ! a"
      using I cx by (auto simp: nth_list_update)
    ultimately show "\<exists>b'. bindE (colE new_cols (int x)) (\<lambda>c. set_col Y (cs ! x) c) = Inr b' \<and>
        (is_mat n p b' \<and> (\<forall>k\<in>set (pre @ [x]). b' ! nat (cs ! k) = new_cols ! k) \<and>
         (\<forall>a<p. (\<forall>k\<in>set (pre @ [x]). cs ! k \<noteq> int a) \<longrightarrow> b' ! a = X ! a))"
      using m by (simp add: c sc)
  qed
  then obtain Y where Y: "foldE (\<lambda>i X. bindE (colE new_cols (int i)) (\<lambda>c. set_col X (cs ! i) c))
                [0..<length cs] X = Inr Y" "is_mat n p Y"
             "\<forall>k \<in> set [0..<length cs]. Y ! nat (cs ! k) = new_cols ! k"
             "\<forall>a < p. (\<forall>k \<in> set [0..<length cs]. cs ! k \<noteq> int a) \<longrightarrow> Y ! a = X ! a"
    by blast
  have "Y ! a = X ! a" if "a < p" "int a \<notin> set cs" for a
  proof -
    have "\<forall>k \<in> set [0..<length cs]. cs ! k \<noteq> int a"
      using that(2) by (auto simp: in_set_conv_nth)
    then show ?thesis using Y(4) that(1) by blast
  qed
  with Y show ?thesis by auto
qed

lemma UpdateGram_ok:
  assumes X: "is_mat n p (X_f s)" and G: "is_mat p p (Gram s)"
    and ci: "\<forall>j \<in> set cs. 0 \<le> j \<and> j < int p" and d: "distinct cs"
  shows "\<exists>H. UpdateGram s cs = Inr (s\<lparr>Gram := H\<rparr>) \<and>
           (\<forall>a < p. \<forall>b < p. H ! b ! a =
               (if int a \<in> set cs \<and> int b \<in> set cs
                then dot (X_f s ! a) (X_f s ! b) + (if a = b \<and> elastic_net s then lambda_2 s else 0)
                else Gram s ! b ! a))"
proof -
  from UpdateGram_outer [OF X G ci] obtain H where
    H: "foldE (\<lambda>i. foldE (\<lambda>j G. bindE (colE (X_f s) i) (\<lambda>ci. bindE (colE (X_f s) j) (\<lambda>cj.
                   set_elem G i j (dot ci cj)))) cs) cs (Gram s) = Inr H" "is_mat p p H"
       "\<forall>a < p. \<forall>b < p. H ! b ! a =
                (if int a \<in> set cs \<and> int b \<in> set cs then dot (X_f s ! a) (X_f s ! b)
                 else Gram s ! b ! a)"
    by blast
  show ?thesis
  proof (cases "elastic_net s")
    case False
    then show ?thesis using H by (auto simp: UpdateGram_def)
  next
    case True
    from UpdateGram_ridge [OF H(2) ci d, of "lambda_2 s"] obtain K where
      K: "foldE (\<lambda>i G. bindE (elem G i i) (\<lambda>g. set_elem G i i (g + lambda_2 s))) cs H = Inr K"
         "\<forall>a < p. \<forall>b < p. K ! b ! a =
                H ! b ! a + (if a = b \<and> int a \<in> set cs then lambda_2 s else 0)"
      by blast
    have "UpdateGram s cs = Inr (s\<lparr>Gram := K\<rparr>)"
      using True H(1) K(1) by (simp add: UpdateGram_def)
    moreover have "\<forall>a < p. \<forall>b < p. K ! b ! a =
               (if int a \<in> set cs \<and> int b \<in> set cs
                then dot (X_f s ! a) (X_f s ! b) + (if a = b \<and> elastic_net s then lambda_2 s else 0)
                else Gram s ! b ! a)"
      using True K(2) H(3) by auto
    ultimately show ?thesis by blast
  qed
qed

lemma UpdateXty_ok:
  assumes X: "is_mat n p (X_f s)" and y: "length (y_f s) = n" and v: "length (Xty s) = p"
    and ci: "\<forall>i \<in> set cs. 0 \<le> i \<and> i < int p"
  shows "\<exists>w. UpdateXty s cs = Inr (s\<lparr>Xty := w\<rparr>) \<and>
             (\<forall>a < p. w ! a = (if int a \<in> set cs then dot (X_f s ! a) (y_f s) else Xty s ! a))"
  using UpdateXty_loop [OF X y v ci] by (auto simp: UpdateXty_def)

text \<open>
  Claim C2, as amended. For a call of \<^verbatim>\<open>UpdateX\<close> with valid, pairwise distinct column
  indices and new columns of the right size: the call returns; the listed columns of the
  dataset are replaced and the others kept; \<^verbatim>\<open>Xty(i)\<close> is the inner product of column \<open>i\<close>
  with \<open>y\<close> for every replaced \<open>i\<close>, so \<^verbatim>\<open>Xty\<close> is again \<open>X\<^sup>T y\<close> when it was before the
  call. The Gram matrix is touched only when the Cholesky branch is not in use: then
  \<^verbatim>\<open>Gram(i,j)\<close> is the inner product of columns \<open>i\<close> and \<open>j\<close> (plus \<open>\<lambda>\<^sub>2\<close> when \<open>i = j\<close> and Elastic
  Net is enabled) for every pair \<open>i\<close>, \<open>j\<close> of replaced indices, and entries with neither
  index replaced are kept. With the Cholesky branch in use the Gram matrix is left as
  it was.
\<close>

theorem UpdateX_block:
  assumes X: "is_mat n p (X_f s)" and y: "length (y_f s) = n" and v: "length (Xty s) = p"
    and G: "use_cholesky s \<or> is_mat p p (Gram s)"
    and ci: "\<forall>i \<in> set col_inds. 0 \<le> i \<and> i < int p" and d: "distinct col_inds"
    and N: "is_mat n (length col_inds) new_cols"
  shows "\<exists>s'. UpdateX s col_inds new_cols = Inr s' \<and>
      (\<forall>k < length col_inds. X_f s' ! nat (col_inds ! k) = new_cols ! k) \<and>
      (\<forall>a < p. int a \<notin> set col_inds \<longrightarrow> X_f s' ! a = X_f s ! a) \<and>
      y_f s' = y_f s \<and>
      (\<forall>a < p. int a \<in> set col_inds \<longrightarrow> Xty s' ! a = dot (X_f s' ! a) (y_f s')) \<and>
      ((\<forall>a < p. Xty s ! a = dot (X_f s ! a) (y_f s)) \<longrightarrow>
       (\<forall>a < p. Xty s' ! a = dot (X_f s' ! a) (y_f s'))) \<and>
      (if use_cholesky s then Gram s' = Gram s
       else \<forall>a < p. \<forall>b < p.
              (int a \<in> set col_inds \<and> int b \<in> set col_inds \<longrightarrow>
                 Gram s' ! b ! a = dot (X_f s' ! a) (X_f s' ! b)
                                   + (if a = b \<and> elastic_net s then lambda_2 s else 0)) \<and>
              (int a \<notin> set col_inds \<and> int b \<notin> set col_inds \<longrightarrow>
                 Gram s' ! b ! a = Gram s ! b ! a))"
proof -
  from UpdateX_loop [OF X N ci d] obtain Y where
    Y: "foldE (\<lambda>i X. bindE (colE new_cols (int i)) (\<lambda>c. set_col X (col_inds ! i) c))
                [0..<length col_inds] (X_f s) = Inr Y" "is_mat n p Y"
       "\<forall>k < length col_inds. Y ! nat (col_inds ! k) = new_cols ! k"
       "\<forall>a < p. int a \<notin> set col_inds \<longrightarrow> Y ! a = X_f s ! a"
    by blast
  define s1 where "s1 = s\<lparr>X_f := Y\<rparr>"
  have s1: "X_f s1 = Y" "y_f s1 = y_f s" "Xty s1 = Xty s" "Gram s1 = Gram s"
    "use_cholesky s1 = use_cholesky s" "elastic_net s1 = elastic_net s" "lambda_2 s1 = lambda_2 s"
    by (simp_all add: s1_def)
  have "\<exists>H. (if \<not> use_cholesky s1 then UpdateGram s1 col_inds else Inr s1) = Inr (s1\<lparr>Gram := H\<rparr>) \<and>
     (if use_cholesky s then H = Gram s
       else \<forall>a < p. \<forall>b < p. H ! b ! a =
               (if int a \<in> set col_inds \<and> int b \<in> set col_inds
                then dot (Y ! a) (Y ! b) + (if a = b \<and> elastic_net s then lambda_2 s else 0)
                else Gram s ! b ! a))"
  proof (cases "use_cholesky s")
    case True
    then show ?thesis by (intro exI [of _ "Gram s"]) (simp add: s1 flip: s1(4))
  next
    case False
    then have "is_mat p p (Gram s1)" using G s1 by simp
    have m: "is_mat n p (X_f s1)" using Y(2) by (simp add: s1)
    have nc: "\<not> use_cholesky s1" using False by (simp add: s1)
    show ?thesis
      using UpdateGram_ok [OF m \<open>is_mat p p (Gram s1)\<close> ci d]
      unfolding if_not_P [OF False] s1 if_P [OF False] .
  qed
  then obtain H where H: "(if \<not> use_cholesky s1 then UpdateGram s1 col_inds else Inr s1) = Inr (s1\<lparr>Gram := H\<rparr>)"
     "if use_cholesky s then H = Gram s
       else \<forall>a < p. \<forall>b < p. H ! b ! a =
               (if int a \<in> set col_inds \<and> int b \<in> set col_inds
                then dot (Y ! a) (Y ! b) + (if a = b \<and> elastic_net s then lambda_2 s else 0)
                else Gram s ! b ! a)"
    by blast
  define s2 where "s2 = s1\<lparr>Gram := H\<rparr>"
  have s2: "X_f s2 = Y" "y_f s2 = y_f s" "Xty s2 = Xty s" "Gram s2 = H"
    by (simp_all add: s2_def s1)
  from UpdateXty_ok [of n p s2 col_inds] Y(2) y v ci obtain w where
    w: "UpdateXty s2 col_inds = Inr (s2\<lparr>Xty := w\<rparr>)"
       "\<forall>a < p. w ! a = (if int a \<in> set col_inds then dot (Y ! a) (y_f s) else Xty s ! a)"
    by (auto simp: s2)
  define s3 where "s3 = s2\<lparr>Xty := w\<rparr>"
  have s3: "X_f s3 = Y" "y_f s3 = y_f s" "Xty s3 = w" "Gram s3 = H"
    by (simp_all add: s3_def s2)
  have H': "(if \<not> use_cholesky s1 then UpdateGram s1 col_inds else Inr s1) = Inr s2"
    using H(1) by (simp only: s2_def)
  have w': "UpdateXty s2 col_inds = Inr s3"
    using w(1) by (simp only: s3_def)
  have run: "UpdateX s col_inds new_cols = Inr s3"
    unfolding UpdateX_def Let_def Y(1) bindE_Inr s1_def [symmetric] H' w' ..
  have "\<forall>a < p. Xty s3 ! a = dot (X_f s3 ! a) (y_f s3)"
    if "\<forall>a < p. Xty s ! a = dot (X_f s ! a) (y_f s)"
    using that w(2) Y(4) by (auto simp: s3)
  moreover have "if use_cholesky s then Gram s3 = Gram s
       else \<forall>a < p. \<forall>b < p.
              (int a \<in> set col_inds \<and> int b \<in> set col_inds \<longrightarrow>
                 Gram s3 ! b ! a = dot (X_f s3 ! a) (X_f s3 ! b)
                                   + (if a = b \<and> elastic_net s then lambda_2 s else 0)) \<and>
              (int a \<notin> set col_inds \<and> int b \<notin> set col_inds \<longrightarrow>
                 Gram s3 ! b ! a = Gram s ! b ! a)"
    using H(2) by (auto simp: s3)
  ultimately show ?thesis
    using run Y(3,4) w(2) by (intro exI [of _ s3]) (simp add: s3)
qed

lemmas run_simps = UpdateX_def UpdateGram_def UpdateXty_def Let_def colE_def set_col_def elem_def
  set_elem_def nthE_def updE_def dotE_def upt_rec

text \<open>
  The claim C2 as the specification states it fails on the code. Replacing column 0 of
  the one-row dataset \<open>(1 1)\<close> by \<open>(2)\<close> leaves \<^verbatim>\<open>Gram(0,1)\<close> at 1, where the inner product of
  the new column 0 with column 1 is 2: \<^verbatim>\<open>UpdateGram\<close> loops over the replaced indices
  only. With the Cholesky branch in use no entry of the Gram matrix is written.
\<close>

theorem UpdateX_counterexample:
  "UpdateX updx0 [0] [[2]]
     = Inr (updx0\<lparr>X_f := [[2], [1]], Gram := [[4, 1], [1, 1]], Xty := [2, 1]\<rparr>) \<and>
   [[4, 1], [1, 1]] ! 1 ! 0 \<noteq> dot [2] [1] \<and>
   UpdateX (updx0\<lparr>use_cholesky := True\<rparr>) [0] [[2]]
     = Inr (updx0\<lparr>use_cholesky := True, X_f := [[2], [1]], Xty := [2, 1]\<rparr>) \<and>
   Gram (updx0\<lparr>use_cholesky := True, X_f := [[2], [1]], Xty := [2, 1]\<rparr>) = [[1, 1], [1, 1]]"
  by (simp add: updx0_def run_simps)

theorem UpdateX_block_witness:
  "is_mat 2 3 (X_f updx1) \<and> is_mat 3 3 (Gram updx1) \<and> is_mat 2 2 [[3, 1], [2, 2]] \<and>
   (\<exists>s'. UpdateX updx1 [2, 0] [[3, 1], [2, 2]] = Inr s' \<and>
      X_f s' ! 0 = [2, 2] \<and> X_f s' ! 1 = [1, 1] \<and> X_f s' ! 2 = [3, 1] \<and>
      Xty s' ! 0 = 4 \<and> Xty s' ! 2 = 4 \<and>
      Gram s' ! 0 ! 0 = 11 \<and> Gram s' ! 0 ! 2 = 8 \<and> Gram s' ! 2 ! 0 = 8 \<and> Gram s' ! 2 ! 2 = 13 \<and>
      Gram s' ! 1 ! 1 = 5)"
proof -
  have h: "is_mat 2 3 (X_f updx1)" "length (y_f updx1) = 2" "length (Xty updx1) = 3"
    "use_cholesky updx1 \<or> is_mat 3 3 (Gram updx1)"
    "\<forall>i \<in> set [2, 0::int]. 0 \<le> i \<and> i < int 3" "distinct [2, 0::int]"
    "is_mat 2 (length [2, 0::int]) [[3, 1], [2, 2]]"
    by (simp_all add: updx1_def is_mat_def)
  from UpdateX_block [OF h] obtain s' where s':
    "UpdateX updx1 [2, 0] [[3, 1], [2, 2]] = Inr s'"
    "\<forall>k < length [2, 0::int]. X_f s' ! nat ([2, 0] ! k) = [[3, 1], [2, 2]] ! k"
    "\<forall>a < 3. int a \<notin> set [2, 0] \<longrightarrow> X_f s' ! a = X_f updx1 ! a"
    "y_f s' = y_f updx1"
    "\<forall>a < 3. int a \<in> set [2, 0] \<longrightarrow> Xty s' ! a = dot (X_f s' ! a) (y_f s')"
    "if use_cholesky updx1 then Gram s' = Gram updx1
       else \<forall>a < 3. \<forall>b < 3.
              (int a \<in> set [2, 0] \<and> int b \<in> set [2, 0] \<longrightarrow>
                 Gram s' ! b ! a = dot (X_f s' ! a) (X_f s' ! b)
                                   + (if a = b \<and> elastic_net updx1 then lambda_2 updx1 else 0)) \<and>
              (int a \<notin> set [2, 0] \<and> int b \<notin> set [2, 0] \<longrightarrow>
                 Gram s' ! b ! a = Gram updx1 ! b ! a)"
    by blast
  have x: "X_f s' ! 0 = [2, 2]" "X_f s' ! 2 = [3, 1]"
    using s'(2) [rule_format, of 1] s'(2) [rule_format, of 0] by simp_all
  have x1: "X_f s' ! 1 = [1, 1]"
    using s'(3) [rule_format, of 1] by (simp add: updx1_def)
  have t: "Xty s' ! 0 = 4" "Xty s' ! 2 = 4"
    using s'(5) [rule_format, of 0] s'(5) [rule_format, of 2] by (simp_all add: x s'(4) updx1_def)
  have g: "\<forall>a < 3. \<forall>b < 3.
              (int a \<in> set [2, 0] \<and> int b \<in> set [2, 0] \<longrightarrow>
                 Gram s' ! b ! a = dot (X_f s' ! a) (X_f s' ! b)
                                   + (if a = b \<and> elastic_net updx1 then lambda_2 updx1 else 0)) \<and>
              (int a \<notin> set [2, 0] \<and> int b \<notin> set [2, 0] \<longrightarrow>
                 Gram s' ! b ! a = Gram updx1 ! b ! a)"
    using s'(6) by (simp add: updx1_def)
  have gg: "Gram s' ! 0 ! 0 = 11" "Gram s' ! 0 ! 2 = 8" "Gram s' ! 2 ! 0 = 8" "Gram s' ! 2 ! 2 = 13"
    "Gram s' ! 1 ! 1 = 5"
    using g [rule_format, of 0 0] g [rule_format, of 2 0] g [rule_format, of 0 2]
      g [rule_format, of 2 2] g [rule_format, of 1 1]
    by (simp_all add: x updx1_def)
  show ?thesis using h(1,7) s'(1) x x1 t gg by (simp add: updx1_def is_mat_def)
qed

section \<open>Inner products and triangular solves\<close>

lemma dot_sum: "dot u v = (\<Sum>i < min (length u) (length v). u ! i * v ! i)"
proof (induction u v rule: dot.induct)
  case (1 a u b v)
  have "(\<Sum>i < Suc (min (length u) (length v)). (a # u) ! i * (b # v) ! i)
        = a * b + (\<Sum>i < min (length u) (length v). u ! i * v ! i)"
    by (subst sum.lessThan_Suc_shift) simp
  with 1 show ?case by (simp del: sum.lessThan_Suc)
qed simp_all

lemma dot_Nil_right [simp]: "dot u [] = 0"
  by (cases u) simp_all


lemma dot_snoc: "length u = length v \<Longrightarrow> dot (u @ [a]) (v @ [b]) = dot u v + a * b"
  by (induction u v rule: dot.induct) simp_all

lemma dot_take_both: "dot (take m u) v = dot (take m u) (take m v)"
proof -
  have "{..< min (length (take m u)) (length v)} = {..< min (length (take m u)) (length (take m v))}"
    by auto
  then show ?thesis unfolding dot_sum by (intro sum.cong) auto
qed



lemma foldE_inv_elim:
  assumes "foldE f xs a = Inr b" and "I [] a"
    and "\<And>pre x post c c'. xs = pre @ x # post \<Longrightarrow> I pre c \<Longrightarrow> f x c = Inr c' \<Longrightarrow> I (pre @ [x]) c'"
  shows "I xs b"
  using assms(1,3)
proof (induction xs arbitrary: b rule: rev_induct)
  case Nil
  then show ?case using assms(2) by simp
next
  case (snoc x xs)
  from snoc.prems(1) obtain c where c: "foldE f xs a = Inr c" "f x c = Inr b"
    by (auto simp: foldE_append bindE_eq_Inr)
  have "I xs c"
  proof (rule snoc.IH [OF c(1)])
    fix pre y post d d'
    assume "xs = pre @ y # post" "I pre d" "f y d = Inr d'"
    then show "I (pre @ [y]) d'"
      using snoc.prems(2) [of pre y "post @ [x]" d d'] by simp
  qed
  then show ?case using snoc.prems(2) [of xs x "[]" c b] c(2) by simp
qed

lemma upt_split_gen:
  assumes "[a..<n] = pre @ x # post"
  shows "pre = [a..<x] \<and> a \<le> x \<and> x < n \<and> length pre = x - a"
proof -
  have "length [a..<n] = length (pre @ x # post)"
    by (simp only: assms)
  then have l: "length pre < n - a" by simp
  have "[a..<n] ! length pre = x" by (simp only: assms nth_append_length)
  then have x: "x = a + length pre" using l by simp
  have "take (length pre) (pre @ x # post) = pre" by simp
  then have "take (length pre) [a..<n] = pre" by (simp only: assms)
  then have "pre = [a..<a + length pre]" using l by (simp add: take_upt)
  with x l show ?thesis by simp
qed

lemma upt_split: "[0..<n] = pre @ x # post \<Longrightarrow> pre = [0..<x] \<and> x < n \<and> length pre = x"
  using upt_split_gen [of 0 n pre x post] by simp

lemma is_mat_dims: "is_mat r c M \<Longrightarrow> n_cols M = c \<and> (0 < c \<longrightarrow> n_rows M = r)"
  by (cases M) (auto simp: is_mat_def n_cols_def n_rows_def)

lemma is_mat_col: "is_mat r c M \<Longrightarrow> j < c \<Longrightarrow> length (M ! j) = r"
  by (simp add: is_mat_def)

lemma solve_trimatl_trans_sound:
  assumes R: "is_mat n n R" and b: "length b = n"
    and s: "solve_trimatl_trans R b = Inr r"
  shows "length r = n \<and> (\<forall>i < n. R ! i ! i \<noteq> 0 \<and> dot (take (Suc i) (R ! i)) r = b ! i)"
proof (cases "n = 0")
  case True
  then have "R = []" using R by (simp add: is_mat_def)
  then show ?thesis using s True by (simp add: solve_trimatl_trans_def n_rows_def n_cols_def split: if_splits)
next
  case False
  then have d: "n_rows R = n" "n_cols R = n" using is_mat_dims [OF R] by auto
  let ?f = "\<lambda>i r. if R ! i ! i = 0 then Inl SolveError
                         else Inr (r @ [(b ! i - dot (take i (R ! i)) r) / (R ! i ! i)])"
  have f: "foldE ?f [0..<n] [] = Inr r"
    using s b by (simp add: solve_trimatl_trans_def d)
  have "length r = length [0..<n] \<and>
        (\<forall>i < length [0..<n]. R ! i ! i \<noteq> 0 \<and> dot (take (Suc i) (R ! i)) (take (Suc i) r) = b ! i)"
  proof (rule foldE_inv_elim [OF f, where I = "\<lambda>done r. length r = length done \<and>
        (\<forall>i < length done. R ! i ! i \<noteq> 0 \<and> dot (take (Suc i) (R ! i)) (take (Suc i) r) = b ! i)"])
    show "length [] = length [] \<and> (\<forall>i<length []. R ! i ! i \<noteq> 0 \<and>
             dot (take (Suc i) (R ! i)) (take (Suc i) []) = b ! i)" by simp
  next
    fix pre x post c c'
    assume xs: "[0..<n] = pre @ x # post"
      and I: "length c = length pre \<and> (\<forall>i<length pre. R ! i ! i \<noteq> 0 \<and>
                 dot (take (Suc i) (R ! i)) (take (Suc i) c) = b ! i)"
      and st: "?f x c = Inr c'"
    from upt_split [OF xs] have x: "x < n" "length pre = x" by auto
    have nz: "R ! x ! x \<noteq> 0" using st by (auto split: if_splits)
    have c': "c' = c @ [(b ! x - dot (take x (R ! x)) c) / (R ! x ! x)]"
      using st nz by simp
    have lx: "length (R ! x) = n" using R x by (simp add: is_mat_col)
    have lc: "length c = x" using I x by simp
    have "dot (take (Suc x) (R ! x)) (take (Suc x) c') = b ! x"
    proof -
      have "take (Suc x) (R ! x) = take x (R ! x) @ [R ! x ! x]"
        using x lx by (simp add: take_Suc_conv_app_nth)
      moreover have "take (Suc x) c' = c'" using lc c' by simp
      moreover have "length (take x (R ! x)) = length c" using lc lx x by simp
      ultimately show ?thesis using nz by (simp add: c' dot_snoc)
    qed
    moreover have "dot (take (Suc i) (R ! i)) (take (Suc i) c') = b ! i" if "i < x" for i
    proof -
      have "take (Suc i) c' = take (Suc i) c" using that lc c' by simp
      then show ?thesis using I that x by simp
    qed
    ultimately show "length c' = length (pre @ [x]) \<and> (\<forall>i<length (pre @ [x]). R ! i ! i \<noteq> 0 \<and>
                 dot (take (Suc i) (R ! i)) (take (Suc i) c') = b ! i)"
      using I nz lc x c' by (auto simp: less_Suc_eq)
  qed
  then have "length r = n" and
      *: "\<forall>i < n. R ! i ! i \<noteq> 0 \<and> dot (take (Suc i) (R ! i)) (take (Suc i) r) = b ! i"
    by simp_all
  have "dot (take (Suc i) (R ! i)) r = b ! i" if "i < n" for i
    using * that unfolding dot_take_both [of "Suc i" "R ! i" r] by blast
  with * \<open>length r = n\<close> show ?thesis by blast
qed

lemma solve_trimatl_trans_total:
  assumes R: "is_mat n n R" and b: "length b = n" and nz: "\<forall>i < n. R ! i ! i \<noteq> 0"
  shows "\<exists>r. solve_trimatl_trans R b = Inr r"
proof (cases "n = 0")
  case True
  then have "R = []" using R by (simp add: is_mat_def)
  then show ?thesis using b True by (simp add: solve_trimatl_trans_def n_rows_def n_cols_def)
next
  case False
  then have d: "n_rows R = n" "n_cols R = n" using is_mat_dims [OF R] by auto
  let ?f = "\<lambda>i r. if R ! i ! i = 0 then Inl SolveError
                         else Inr (r @ [(b ! i - dot (take i (R ! i)) r) / (R ! i ! i)])"
  have "\<exists>r. foldE ?f [0..<n] [] = Inr r \<and> True"
  proof (rule foldE_inv [where I = "\<lambda>_ _. True"])
    fix pre x post c
    assume "[0..<n] = pre @ x # post"
    from upt_split [OF this] have "x < n" by simp
    then show "\<exists>b'. ?f x c = Inr b' \<and> True" using nz by simp
  qed simp
  then show ?thesis using b by (simp add: solve_trimatl_trans_def d)
qed





section \<open>Givens rotations\<close>


lemma length_rot [simp]: "length (rot c s k u) = length u"
  by (simp add: rot_def)



lemma rot_id: "Suc k < length u \<Longrightarrow> rot 1 0 k u = u"
  by (simp add: rot_def)







section \<open>Deleting a column of the Cholesky factor\<close>


lemma length_erase: "k < length xs \<Longrightarrow> length (take k xs @ drop (Suc k) xs) = length xs - 1"
  by auto






lemma Deactivate_fields:
  assumes "Deactivate s k = Inr s'"
  shows "k < length (active_set s)" "n_active s' = u32_dec (n_active s)"
    "active_set s' = take k (active_set s) @ drop (Suc k) (active_set s)"
    "X_f s' = X_f s" "elastic_net s' = elastic_net s" "lambda_2 s' = lambda_2 s"
    "active_set s ! k < length (is_active s)"
    "is_active s' = (is_active s)[active_set s ! k := False]"
  using assms by (auto simp: Deactivate_def nthE_def updE_def bindE_eq_Inr split: if_splits)


section \<open>The phases of an iteration\<close>

lemma mapE_Inr:
  "mapE f xs = Inr ys \<Longrightarrow> length ys = length xs \<and> (\<forall>i < length xs. f (xs ! i) = Inr (ys ! i))"
proof (induction xs arbitrary: ys)
  case Nil
  then show ?case by simp
next
  case (Cons x xs)
  from Cons.prems obtain y zs where y: "f x = Inr y" and zs: "mapE f xs = Inr zs"
    and ys: "ys = y # zs"
    by (auto simp: bindE_eq_Inr)
  from Cons.IH [OF zs] show ?case using y ys by (auto simp: nth_Cons split: nat.splits)
qed

lemma mapE_upt_Inr:
  assumes "mapE f [0..<n] = Inr ys"
  shows "length ys = n \<and> (\<forall>i < n. f i = Inr (ys ! i))"
  using mapE_Inr [OF assms] by simp

lemma nthE_Inr: "nthE xs (int i) = Inr v \<longleftrightarrow> i < length xs \<and> v = xs ! i"
  by (auto simp: nthE_def)

lemma updE_Inr: "updE xs (int i) v = Inr ys \<longleftrightarrow> i < length xs \<and> ys = xs[i := v]"
  by (auto simp: updE_def)

lemma colE_Inr: "colE M (int j) = Inr c \<longleftrightarrow> j < length M \<and> c = M ! j"
  by (auto simp: colE_def nthE_def)

lemma dotE_Inr: "dotE u v = Inr d \<longleftrightarrow> length u = length v \<and> d = dot u v"
  by (auto simp: dotE_def)

lemma axpby_Inr:
  "axpby a u b v = Inr w \<longleftrightarrow> length u = length v \<and> w = map2 (\<lambda>x y. a * x + b * y) u v"
  by (auto simp: axpby_def)

lemma Activate_Inr:
  "Activate s j = Inr s' \<longleftrightarrow>
     j < length (is_active s) \<and>
     s' = s\<lparr>n_active := n_active s + 1, is_active := (is_active s)[j := True],
            active_set := active_set s @ [j]\<rparr>"
  by (auto simp: Activate_def updE_Inr bindE_eq_Inr)

lemma Deactivate_Inr:
  "Deactivate s k = Inr s' \<longleftrightarrow>
     k < length (active_set s) \<and> active_set s ! k < length (is_active s) \<and>
     s' = s\<lparr>n_active := u32_dec (n_active s),
            is_active := (is_active s)[active_set s ! k := False],
            active_set := take k (active_set s) @ drop (Suc k) (active_set s)\<rparr>"
  by (auto simp: Deactivate_def updE_Inr nthE_Inr bindE_eq_Inr)

lemma DoLARS_body_Inr:
  assumes "DoLARS_body solve t = Inr (stop, t')"
  obtains t1 sv bd nz yd gamma ci ko where
    "enter_or_leave t = Inr t1" "signs t1 = Inr sv" "direction solve t1 sv = Inr (bd, nz)"
    "ComputeYHatDirection (obj t1) bd = Inr yd"
    "step_length t1 bd yd nz = Inr (gamma, ci, ko)"
    "update_estimate (t1\<lparr>change_ind := ci, kick_out := ko\<rparr>) bd yd nz gamma = Inr (stop, t')"
  using assms unfolding DoLARS_body_def
  by (auto simp: bindE_eq_Inr split: prod.splits)

lemma enter_or_leave_Inr:
  assumes "enter_or_leave t = Inr t1"
  shows "\<not> kick_out t1 \<and> beta t1 = beta t \<and> y_hat t1 = y_hat t \<and> corr t1 = corr t \<and>
     change_ind t1 = change_ind t \<and> max_corr t1 = max_corr t \<and>
     (if kick_out t then
        Deactivate (obj t) (change_ind t) = Inr (obj t1) \<and>
        (if use_cholesky (obj t) then CholeskyDelete (R_chol t) (change_ind t) = Inr (R_chol t1)
         else R_chol t1 = R_chol t)
      else
        Activate (obj t) (change_ind t) = Inr (obj t1) \<and>
        (if use_cholesky (obj t) then
           change_ind t < length (X_f (obj t)) \<and>
           (\<exists>g. length g = n_active (obj t) \<and>
                (\<forall>i < n_active (obj t). i < length (active_set (obj t)) \<and>
                    g ! i = dot (X_f (obj t) ! (active_set (obj t) ! i))
                                (X_f (obj t) ! change_ind t)) \<and>
                CholeskyInsert (obj t) (R_chol t) (X_f (obj t) ! change_ind t) g
                  = Inr (R_chol t1))
         else R_chol t1 = R_chol t))"
proof (cases "kick_out t")
  case True
  then show ?thesis using assms
    by (auto simp: enter_or_leave_def Let_def bindE_eq_Inr split: if_splits)
next
  case False
  note nk = this
  show ?thesis
  proof (cases "use_cholesky (obj t)")
    case False
    then show ?thesis
      using assms nk by (auto simp: enter_or_leave_def Let_def bindE_eq_Inr)
  next
    case True
    let ?s = "obj t"
    let ?f = "\<lambda>i. bindE (nthE (active_set ?s) (int i)) (\<lambda>a.
                                   bindE (colE (X_f ?s) (int a)) (\<lambda>ca.
                                   bindE (colE (X_f ?s) (int (change_ind t))) (\<lambda>cc.
                                   dotE ca cc)))"
    from assms nk True obtain g new_x R' s' where
      g: "mapE ?f [0..<n_active ?s] = Inr g"
      and x: "colE (X_f ?s) (int (change_ind t)) = Inr new_x"
      and ins: "CholeskyInsert ?s (R_chol t) new_x g = Inr R'"
      and act: "Activate ?s (change_ind t) = Inr s'"
      and t1: "t1 = t\<lparr>R_chol := R', obj := s'\<rparr>"
      by (auto simp: enter_or_leave_def Let_def bindE_eq_Inr)
    have nx: "change_ind t < length (X_f ?s)" "new_x = X_f ?s ! change_ind t"
      using x by (simp_all add: colE_Inr)
    from mapE_upt_Inr [OF g] have lg: "length g = n_active ?s"
      and gi: "\<forall>i < n_active ?s. ?f i = Inr (g ! i)" by auto
    have gg: "\<forall>i < n_active ?s. i < length (active_set ?s) \<and>
          g ! i = dot (X_f ?s ! (active_set ?s ! i)) (X_f ?s ! change_ind t)"
    proof (intro allI impI)
      fix i assume "i < n_active ?s"
      from gi [rule_format, OF this]
      show "i < length (active_set ?s) \<and>
          g ! i = dot (X_f ?s ! (active_set ?s ! i)) (X_f ?s ! change_ind t)"
        by (auto simp: bindE_eq_Inr nthE_Inr colE_Inr dotE_Inr)
    qed
    have ex: "\<exists>g. length g = n_active ?s \<and>
                (\<forall>i < n_active ?s. i < length (active_set ?s) \<and>
                    g ! i = dot (X_f ?s ! (active_set ?s ! i)) (X_f ?s ! change_ind t)) \<and>
                CholeskyInsert ?s (R_chol t) (X_f ?s ! change_ind t) g = Inr R'"
      using lg gg ins nx by blast
    show ?thesis
      using nk True act nx(1) ex by (simp add: t1)
  qed
qed

lemma normalize_Inr: "normalize q = Inr nz \<Longrightarrow> 0 < q \<and> nz = 1 / sqrt q \<and> 0 < nz"
  by (auto simp: normalize_def split: if_splits)

lemma direction_pos:
  assumes "direction solve t sv = Inr (bd, nz)"
  shows "0 < nz"
  using assms normalize_Inr
  by (fastforce simp: direction_def Let_def bindE_eq_Inr split: if_splits)


lemma nthE_sub:
  "nthE xs (int m - 2) = Inr v \<longleftrightarrow> 2 \<le> m \<and> m - 2 < length xs \<and> v = xs ! (m - 2)"
  "nthE xs (int m - 1) = Inr v \<longleftrightarrow> 1 \<le> m \<and> m - 1 < length xs \<and> v = xs ! (m - 1)"
  by (auto simp: nthE_def nat_diff_distrib')

lemma updE_sub:
  "updE xs (int m - 1) v = Inr ys \<longleftrightarrow> 1 \<le> m \<and> m - 1 < length xs \<and> ys = xs[m - 1 := v]"
  by (auto simp: updE_def nat_diff_distrib')

lemma InterpolateBeta_Inr:
  assumes "InterpolateBeta s u = Inr s'"
  shows "2 \<le> length (beta_path s) \<and> length (beta_path s) \<le> length (lambda_path s) \<and>
     (\<exists>interp. s' = s\<lparr>beta_path := (beta_path s)[length (beta_path s) - 1 :=
                    map2 (\<lambda>x y. (1 - interp) * x + interp * y)
                      (beta_path s ! (length (beta_path s) - 2))
                      (beta_path s ! (length (beta_path s) - 1))],
                  lambda_path := (lambda_path s)[length (beta_path s) - 1 := desired_lambda s]\<rparr>)"
proof -
  let ?m = "length (beta_path s)"
  let ?pen = "lambda_path s ! (?m - 2)"
  let ?i = "(?pen - desired_lambda s) / (?pen - u)"
  from assms have two: "2 \<le> ?m" and l: "?m - 1 < length (lambda_path s)"
    and s': "s' = s\<lparr>beta_path := (beta_path s)[?m - 1 :=
                    map2 (\<lambda>x y. (1 - ?i) * x + ?i * y)
                      (beta_path s ! (?m - 2)) (beta_path s ! (?m - 1))],
                  lambda_path := (lambda_path s)[?m - 1 := desired_lambda s]\<rparr>"
    unfolding InterpolateBeta_def Let_def
    by (auto simp: bindE_eq_Inr nthE_sub updE_sub axpby_Inr split: if_splits)
  from two l have "?m \<le> length (lambda_path s)" by linarith
  with two s' show ?thesis by blast
qed

lemma update_estimate_Inr:
  assumes "update_estimate t bd yd nz gamma = Inr (stop, t')"
  obtains b' where
    "foldE (\<lambda>i b. bindE (nthE (active_set (obj t)) (int i)) (\<lambda>a. bindE (nthE b (int a)) (\<lambda>ba.
                      bindE (nthE bd (int i)) (\<lambda>d. updE b (int a) (ba + gamma * d)))))
               [0..<n_active (obj t)] (beta t) = Inr b'"
    and "beta t' = b'" and "max_corr t' = max_corr t - gamma * nz"
    and "kick_out t' = kick_out t" and "change_ind t' = change_ind t"
    and "R_chol t' = R_chol t"
    and "stop = (lasso (obj t) \<and> max_corr t - gamma * nz \<le> desired_lambda (obj t))"
    and "stop \<Longrightarrow>
        InterpolateBeta ((obj t)\<lparr>beta_path := beta_path (obj t) @ [b'],
                           lambda_path := lambda_path (obj t) @ [max_corr t - gamma * nz]\<rparr>)
           (max_corr t - gamma * nz) = Inr (obj t')"
    and "\<not> stop \<Longrightarrow>
        obj t' = (obj t)\<lparr>beta_path := beta_path (obj t) @ [b'],
                           lambda_path := lambda_path (obj t) @ [max_corr t - gamma * nz]\<rparr>"
  using assms unfolding update_estimate_def Let_def
  by (auto simp: bindE_eq_Inr split: if_splits)

lemma DBL_MAX_pos: "0 < DBL_MAX"
proof -
  have "(1::real) / 2 ^ 52 \<le> 1" by simp
  then have "0 < (2::real) - 1 / 2 ^ 52" by linarith
  then show ?thesis unfolding DBL_MAX_def by (intro mult_pos_pos) simp_all
qed

lemma lasso_bound_Inr:
  assumes f: "lasso_bound t bd = Inr (b, k)"
  defines "n \<equiv> n_active (obj t)"
  shows "(b = DBL_MAX \<and> k = u32_minus_one \<and>
            (\<forall>i < n. \<not> (0 < lasso_ratio t bd i \<and> lasso_ratio t bd i < DBL_MAX))) \<or>
         (k < n \<and> b = lasso_ratio t bd k \<and> 0 < b \<and> b < DBL_MAX \<and>
            (\<forall>i < n. 0 < lasso_ratio t bd i \<longrightarrow> b \<le> lasso_ratio t bd i) \<and>
            (\<forall>i < k. lasso_ratio t bd i \<noteq> b))"
proof -
  let ?r = "lasso_ratio t bd"
  let ?I = "\<lambda>m (p :: real \<times> nat).
        (fst p = DBL_MAX \<and> snd p = u32_minus_one \<and> (\<forall>i < m. \<not> (0 < ?r i \<and> ?r i < DBL_MAX))) \<or>
         (snd p < m \<and> fst p = ?r (snd p) \<and> 0 < fst p \<and> fst p < DBL_MAX \<and>
            (\<forall>i < m. 0 < ?r i \<longrightarrow> fst p \<le> ?r i) \<and> (\<forall>i < snd p. ?r i \<noteq> fst p))"
  have "?I (length [0..<n]) (b, k)"
  proof (rule foldE_inv_elim [OF f [unfolded lasso_bound_def n_def [symmetric]],
        where I = "\<lambda>done. ?I (length done)"])
    show "?I (length []) (DBL_MAX, u32_minus_one)" by simp
  next
    fix pre x post c c'
    assume xs: "[0..<n] = pre @ x # post" and I: "?I (length pre) c"
      and st: "(case c of (lasso_bound_on_gamma, active_ind_to_kick_out) \<Rightarrow>
              bindE (nthE (active_set (obj t)) (int x)) (\<lambda>a.
              bindE (nthE (beta t) (int a)) (\<lambda>b.
              bindE (nthE bd (int x)) (\<lambda>d.
              let val = - b / d
              in Inr (if val > 0 \<and> val < lasso_bound_on_gamma then (val, x)
                      else (lasso_bound_on_gamma, active_ind_to_kick_out)))))) = Inr c'"
    from upt_split [OF xs] have x: "x < n" "length pre = x" by auto
    obtain g ci where c: "c = (g, ci)" by (cases c)
    from st c have c': "c' = (if ?r x > 0 \<and> ?r x < g then (?r x, x) else (g, ci))"
      by (auto simp: bindE_eq_Inr nthE_Inr Let_def lasso_ratio_def)
    have I': "(g = DBL_MAX \<and> ci = u32_minus_one \<and> (\<forall>i < x. \<not> (0 < ?r i \<and> ?r i < DBL_MAX))) \<or>
         (ci < x \<and> g = ?r ci \<and> 0 < g \<and> g < DBL_MAX \<and>
            (\<forall>i < x. 0 < ?r i \<longrightarrow> g \<le> ?r i) \<and> (\<forall>i < ci. ?r i \<noteq> g))"
      using I c x by simp
    have low: "\<forall>i < x. 0 < ?r i \<longrightarrow> g \<le> ?r i" and gmax: "g \<le> DBL_MAX"
      using I' by (auto simp: not_less)
    have "?I (Suc x) c'"
    proof (cases "?r x > 0 \<and> ?r x < g")
      case True
      then have e: "c' = (?r x, x)" by (simp add: c')
      have "\<forall>i < Suc x. 0 < ?r i \<longrightarrow> ?r x \<le> ?r i"
        using low True by (auto simp: less_Suc_eq)
      moreover have "\<forall>i < x. ?r i \<noteq> ?r x"
        using low True by (metis not_less)
      ultimately show ?thesis using True gmax by (simp add: e)
    next
      case False
      then have e: "c' = (g, ci)" by (simp add: c')
      from I' show ?thesis
      proof
        assume a: "g = DBL_MAX \<and> ci = u32_minus_one \<and> (\<forall>i < x. \<not> (0 < ?r i \<and> ?r i < DBL_MAX))"
        then have "\<forall>i < Suc x. \<not> (0 < ?r i \<and> ?r i < DBL_MAX)"
          using False by (auto simp: less_Suc_eq)
        with a show ?thesis by (simp add: e)
      next
        assume a: "ci < x \<and> g = ?r ci \<and> 0 < g \<and> g < DBL_MAX \<and>
            (\<forall>i < x. 0 < ?r i \<longrightarrow> g \<le> ?r i) \<and> (\<forall>i < ci. ?r i \<noteq> g)"
        then have "\<forall>i < Suc x. 0 < ?r i \<longrightarrow> g \<le> ?r i"
          using False by (auto simp: less_Suc_eq)
        moreover have "ci < Suc x" using a by simp
        ultimately have "snd c' < Suc x \<and> fst c' = ?r (snd c') \<and> 0 < fst c' \<and> fst c' < DBL_MAX \<and>
            (\<forall>i < Suc x. 0 < ?r i \<longrightarrow> fst c' \<le> ?r i) \<and> (\<forall>i < snd c'. ?r i \<noteq> fst c')"
          using a unfolding e fst_conv snd_conv by blast
        then show ?thesis by (rule disjI2)
      qed
    qed
    then show "?I (length (pre @ [x])) c'" using x by simp
  qed
  then show ?thesis by simp
qed

lemma lasso_bound_total:
  assumes "n_active (obj t) \<le> length (active_set (obj t))"
    and "\<forall>a \<in> set (active_set (obj t)). a < length (beta t)"
    and "n_active (obj t) \<le> length bd"
  shows "\<exists>r. lasso_bound t bd = Inr r"
proof -
  have "\<exists>r. lasso_bound t bd = Inr r \<and> True"
    unfolding lasso_bound_def
  proof (rule foldE_inv [where I = "\<lambda>_ _. True"])
    fix pre x post and b :: "real \<times> nat"
    assume "[0..<n_active (obj t)] = pre @ x # post"
    from upt_split [OF this] have x: "x < n_active (obj t)" by simp
    then have "active_set (obj t) ! x < length (beta t)" using assms(1,2) by simp
    then show "\<exists>b'. (case b of (lasso_bound_on_gamma, active_ind_to_kick_out) \<Rightarrow>
              bindE (nthE (active_set (obj t)) (int x)) (\<lambda>a.
              bindE (nthE (beta t) (int a)) (\<lambda>b.
              bindE (nthE bd (int x)) (\<lambda>d.
              let val = - b / d
              in Inr (if val > 0 \<and> val < lasso_bound_on_gamma then (val, x)
                      else (lasso_bound_on_gamma, active_ind_to_kick_out)))))) = Inr b' \<and> True"
      using x assms(1,3) by (cases b) (simp add: nthE_def Let_def)
  qed simp
  then show ?thesis by blast
qed

lemma inactive_bound_Inr:
  assumes f: "inactive_bound t yd nz = Inr (gamma, ci)"
    and pos: "0 < max_corr t" "0 < nz"
  shows "0 < gamma \<and> gamma \<le> max_corr t / nz \<and>
         (ci = u32_minus_one \<or>
          (ci < p_f (obj t) \<and> ci < length (is_active (obj t)) \<and> \<not> is_active (obj t) ! ci))"
proof (cases "n_active (obj t) < p_f (obj t)")
  case False
  then show ?thesis using f pos by (auto simp: inactive_bound_def Let_def)
next
  case True
  let ?s = "obj t"
  let ?I = "\<lambda>(p :: real \<times> nat). 0 < fst p \<and> fst p \<le> max_corr t / nz \<and>
         (snd p = u32_minus_one \<or>
          (snd p < p_f ?s \<and> snd p < length (is_active ?s) \<and> \<not> is_active ?s ! snd p))"
  let ?F = "\<lambda>ind (gamma, ci).
                    bindE (nthE (is_active ?s) (int ind)) (\<lambda>act.
                    if act then Inr (gamma, ci)
                    else
                      bindE (colE (X_f ?s) (int ind)) (\<lambda>c.
                      bindE (dotE c yd) (\<lambda>dir_corr.
                      bindE (nthE (corr t) (int ind)) (\<lambda>corr_ind.
                      let val1 = (max_corr t - corr_ind) / (nz - dir_corr);
                          val2 = (max_corr t + corr_ind) / (nz + dir_corr);
                          (gamma1, ci1) = (if val1 > 0 \<and> val1 < gamma then (val1, ind)
                                           else (gamma, ci))
                      in Inr (if val2 > 0 \<and> val2 < gamma1 then (val2, ind)
                              else (gamma1, ci1))))))"
  have f': "foldE ?F [0..<p_f ?s] (max_corr t / nz, u32_minus_one) = Inr (gamma, ci)"
    using f True by (simp add: inactive_bound_def Let_def)
  have "?I (gamma, ci)"
  proof (rule foldE_inv_elim [OF f', where I = "\<lambda>_. ?I"])
    show "?I (max_corr t / nz, u32_minus_one)" using pos by simp
  next
    fix pre x post c c'
    assume xs: "[0..<p_f ?s] = pre @ x # post" and I: "?I c" and st: "?F x c = Inr c'"
    from upt_split [OF xs] have x: "x < p_f ?s" by simp
    obtain g k where c: "c = (g, k)" by (cases c)
    show "?I c'"
    proof (cases "is_active ?s ! x")
      case True
      then have "c' = c" using st c by (auto simp: bindE_eq_Inr nthE_Inr)
      then show ?thesis using I by simp
    next
      case False
      from st c have xl: "x < length (is_active ?s)"
        by (auto simp: bindE_eq_Inr nthE_Inr)
      have cp: "(case p of (a, b) \<Rightarrow> Inr (h a b)) = Inr (case p of (a, b) \<Rightarrow> h a b)"
        for p :: "real \<times> nat" and h :: "real \<Rightarrow> nat \<Rightarrow> real \<times> nat"
        by (simp split: prod.splits)
      from st c False xl obtain v1 v2 where
        c': "c' = (let (gamma1, ci1) = (if v1 > 0 \<and> v1 < g then (v1, x) else (g, k))
                   in if v2 > 0 \<and> v2 < gamma1 then (v2, x) else (gamma1, ci1))"
        unfolding Let_def cp by (auto simp: bindE_eq_Inr nthE_Inr)
      have "?I (if v1 > 0 \<and> v1 < g then (v1, x) else (g, k))"
        using I c x xl False by auto
      then show ?thesis
        unfolding c' using x xl False
        by (cases "v1 > 0 \<and> v1 < g") (auto simp: Let_def)
    qed
  qed
  then show ?thesis by simp
qed

lemma step_length_Inr:
  assumes f: "step_length t bd yd nz = Inr (gamma, ci, ko)"
    and pos: "0 < max_corr t" "0 < nz" and nk: "\<not> kick_out t"
  shows "0 < gamma \<and>
     (if ko then
        lasso (obj t) \<and>
        ((ci < n_active (obj t) \<and> gamma = lasso_ratio t bd ci \<and> 0 < lasso_ratio t bd ci) \<or>
         (ci = u32_minus_one \<and> gamma = DBL_MAX))
      else ci = u32_minus_one \<or>
          (ci < p_f (obj t) \<and> ci < length (is_active (obj t)) \<and> \<not> is_active (obj t) ! ci))"
proof -
  from f obtain g0 c0 where ib: "inactive_bound t yd nz = Inr (g0, c0)"
    and rest: "(if lasso (obj t) then
       bindE (lasso_bound t bd) (\<lambda>(lasso_bound_on_gamma, active_ind_to_kick_out).
       if lasso_bound_on_gamma < g0
       then Inr (lasso_bound_on_gamma, active_ind_to_kick_out, True)
       else Inr (g0, c0, kick_out t))
     else Inr (g0, c0, kick_out t)) = Inr (gamma, ci, ko)"
    by (auto simp: step_length_def bindE_eq_Inr)
  from inactive_bound_Inr [OF ib pos] have g0: "0 < g0"
    and c0: "c0 = u32_minus_one \<or>
          (c0 < p_f (obj t) \<and> c0 < length (is_active (obj t)) \<and> \<not> is_active (obj t) ! c0)"
    by auto
  show ?thesis
  proof (cases "lasso (obj t)")
    case False
    then show ?thesis using rest g0 c0 nk by auto
  next
    case True
    show ?thesis
    proof (cases "lasso_bound t bd")
      case (Inl e)
      then show ?thesis using rest True by simp
    next
      case (Inr q)
      obtain b k where qe: "q = (b, k)" by (cases q)
      have lb: "lasso_bound t bd = Inr (b, k)" using Inr qe by simp
      have r: "(if b < g0 then Inr (b, k, True) else Inr (g0, c0, kick_out t))
               = Inr (gamma, ci, ko)"
        using rest True lb by (simp split: if_splits)
      show ?thesis
      proof (cases "b < g0")
        case False
        then show ?thesis using r g0 c0 nk by auto
      next
        case b: True
        then have e: "gamma = b" "ci = k" "ko" using r by auto
        from lasso_bound_Inr [OF lb] show ?thesis
          using e True DBL_MAX_pos by auto
      qed
    qed
  qed
qed




section \<open>Preservation of the invariants\<close>





lemma enter_or_leave_frame:
  assumes en: "enter_or_leave t = Inr t1"
  shows "p_f (obj t1) = p_f (obj t) \<and>
         beta_path (obj t1) = beta_path (obj t) \<and> lambda_path (obj t1) = lambda_path (obj t) \<and>
         lasso (obj t1) = lasso (obj t) \<and> desired_lambda (obj t1) = desired_lambda (obj t) \<and>
         use_cholesky (obj t1) = use_cholesky (obj t) \<and> X_f (obj t1) = X_f (obj t) \<and>
         elastic_net (obj t1) = elastic_net (obj t) \<and> lambda_2 (obj t1) = lambda_2 (obj t) \<and>
         max_corr t1 = max_corr t \<and> \<not> kick_out t1"
proof (cases "kick_out t")
  case True
  then have "Deactivate (obj t) (change_ind t) = Inr (obj t1)"
    using enter_or_leave_Inr [OF en] by simp
  then show ?thesis using enter_or_leave_Inr [OF en] by (auto simp: Deactivate_Inr)
next
  case False
  then have "Activate (obj t) (change_ind t) = Inr (obj t1)"
    using enter_or_leave_Inr [OF en] by simp
  then show ?thesis using enter_or_leave_Inr [OF en] by (auto simp: Activate_Inr)
qed

text \<open>What an iteration does to the two paths.\<close>

lemma body_paths:
  assumes pos: "0 < max_corr t" and body: "DoLARS_body solve t = Inr (stop, t')"
    and len: "length (beta_path (obj t)) = length (lambda_path (obj t))"
  shows "\<exists>b v. v < max_corr t \<and>
           beta_path (obj t') = beta_path (obj t) @ [b] \<and>
           stop = (lasso (obj t) \<and> v \<le> desired_lambda (obj t)) \<and>
           (if stop then lambda_path (obj t') = lambda_path (obj t) @ [desired_lambda (obj t)]
            else lambda_path (obj t') = lambda_path (obj t) @ [v] \<and> max_corr t' = v \<and> b = beta t')"
proof -
  obtain t1 sv bd nz yd gamma ci ko where
    en: "enter_or_leave t = Inr t1" and sg: "signs t1 = Inr sv"
    and dir: "direction solve t1 sv = Inr (bd, nz)"
    and yh: "ComputeYHatDirection (obj t1) bd = Inr yd"
    and sl: "step_length t1 bd yd nz = Inr (gamma, ci, ko)"
    and up: "update_estimate (t1\<lparr>change_ind := ci, kick_out := ko\<rparr>) bd yd nz gamma = Inr (stop, t')"
    by (rule DoLARS_body_Inr [OF body])
  let ?s1 = "obj t1"
  note fr = enter_or_leave_frame [OF en]
  have nz: "0 < nz" by (rule direction_pos [OF dir])
  have m1: "max_corr t1 = max_corr t" and nk1: "\<not> kick_out t1" using fr by auto
  from step_length_Inr [OF sl _ nz nk1] pos m1 have g: "0 < gamma" by simp
  let ?v = "max_corr t - gamma * nz"
  have v: "?v < max_corr t" using g nz by simp
  define t2 where "t2 = t1\<lparr>change_ind := ci, kick_out := ko\<rparr>"
  have t2f: "obj t2 = obj t1" "beta t2 = beta t1" "max_corr t2 = max_corr t1"
    "kick_out t2 = ko" "change_ind t2 = ci" "R_chol t2 = R_chol t1"
    by (simp_all add: t2_def)
  have up': "update_estimate t2 bd yd nz gamma = Inr (stop, t')"
    using up by (simp only: t2_def)
  obtain b' where
    fold: "foldE (\<lambda>i b. bindE (nthE (active_set ?s1) (int i)) (\<lambda>a. bindE (nthE b (int a)) (\<lambda>ba.
                      bindE (nthE bd (int i)) (\<lambda>d. updE b (int a) (ba + gamma * d)))))
               [0..<n_active ?s1] (beta t1) = Inr b'"
    and bt': "beta t' = b'" and mt': "max_corr t' = max_corr t1 - gamma * nz"
    and kt': "kick_out t' = ko" and ct': "change_ind t' = ci"
    and rt': "R_chol t' = R_chol t1"
    and stp: "stop = (lasso ?s1 \<and> max_corr t1 - gamma * nz \<le> desired_lambda ?s1)"
    and ob1: "stop \<Longrightarrow>
        InterpolateBeta (?s1\<lparr>beta_path := beta_path ?s1 @ [b'],
                           lambda_path := lambda_path ?s1 @ [max_corr t1 - gamma * nz]\<rparr>)
           (max_corr t1 - gamma * nz) = Inr (obj t')"
    and ob2: "\<not> stop \<Longrightarrow> obj t' = ?s1\<lparr>beta_path := beta_path ?s1 @ [b'],
                           lambda_path := lambda_path ?s1 @ [max_corr t1 - gamma * nz]\<rparr>"
    by (rule update_estimate_Inr [OF up', unfolded t2f]) blast
  have stp': "stop = (lasso (obj t) \<and> ?v \<le> desired_lambda (obj t))"
    using stp fr by simp
  show ?thesis
  proof (cases stop)
    case False
    then have "obj t' = ?s1\<lparr>beta_path := beta_path ?s1 @ [b'],
                           lambda_path := lambda_path ?s1 @ [?v]\<rparr>"
      using ob2 m1 by simp
    then have "beta_path (obj t') = beta_path (obj t) @ [b']"
      "lambda_path (obj t') = lambda_path (obj t) @ [?v]"
      using fr by simp_all
    then show ?thesis using False v stp' mt' m1 bt'
      by (intro exI [of _ b'] exI [of _ ?v]) auto
  next
    case True
    let ?s2 = "?s1\<lparr>beta_path := beta_path ?s1 @ [b'],
                           lambda_path := lambda_path ?s1 @ [max_corr t1 - gamma * nz]\<rparr>"
    from ob1 [OF True] have ib: "InterpolateBeta ?s2 (max_corr t1 - gamma * nz) = Inr (obj t')"
      by simp
    from InterpolateBeta_Inr [OF ib] obtain interp where
      o': "obj t' = ?s2\<lparr>beta_path := (beta_path ?s2)[length (beta_path ?s2) - 1 :=
                    map2 (\<lambda>x y. (1 - interp) * x + interp * y)
                      (beta_path ?s2 ! (length (beta_path ?s2) - 2))
                      (beta_path ?s2 ! (length (beta_path ?s2) - 1))],
                  lambda_path := (lambda_path ?s2)[length (beta_path ?s2) - 1 := desired_lambda ?s2]\<rparr>"
      by blast
    have l1: "length (beta_path ?s1) = length (lambda_path ?s1)" using len fr by simp
    define bn where "bn = map2 (\<lambda>x y. (1 - interp) * x + interp * y)
                      (beta_path ?s2 ! (length (beta_path ?s2) - 2))
                      (beta_path ?s2 ! (length (beta_path ?s2) - 1))"
    have "beta_path (obj t') = beta_path (obj t) @ [bn]"
      using fr by (simp add: o' bn_def)
    moreover have "lambda_path (obj t') = lambda_path (obj t) @ [desired_lambda (obj t)]"
      using fr l1 by (simp add: o')
    ultimately show ?thesis using True v stp'
      by (intro exI [of _ bn] exI [of _ ?v]) auto
  qed
qed

lemma nonincreasing_snoc:
  "ls \<noteq> [] \<Longrightarrow> nonincreasing (ls @ [v]) \<longleftrightarrow> nonincreasing ls \<and> v \<le> last ls"
proof -
  assume ne: "ls \<noteq> []"
  have "(\<forall>x \<in> set ls. v \<le> x) \<longleftrightarrow> v \<le> last ls" if "nonincreasing ls"
  proof
    assume "\<forall>x \<in> set ls. v \<le> x"
    then show "v \<le> last ls" using ne by simp
  next
    assume v: "v \<le> last ls"
    have "last ls \<le> x" if "x \<in> set ls" for x
    proof -
      from that obtain i where i: "i < length ls" "x = ls ! i" by (auto simp: in_set_conv_nth)
      show ?thesis
      proof (cases "i = length ls - 1")
        case True
        then show ?thesis using i ne by (simp add: last_conv_nth)
      next
        case False
        then have "i < length ls - 1" using i by simp
        then have "ls ! (length ls - 1) \<le> ls ! i"
          using \<open>nonincreasing ls\<close> i
          by (auto simp: nonincreasing_def sorted_wrt_iff_nth_less)
        then show ?thesis using i ne by (simp add: last_conv_nth)
      qed
    qed
    then show "\<forall>x \<in> set ls. v \<le> x" using v by force
  qed
  then show ?thesis by (auto simp: nonincreasing_def sorted_wrt_append)
qed

lemma body_path_inv:
  assumes inv: "path_inv s0 t" and pos: "0 < max_corr t"
    and body: "DoLARS_body solve t = Inr (stop, t')"
  shows "length (beta_path (obj t')) = length (lambda_path (obj t')) \<and>
         (\<not> stop \<longrightarrow> path_inv s0 t' \<and> max_corr t' < max_corr t) \<and>
         (stop \<longrightarrow> (\<exists>bs ls. beta_path (obj t') = beta_path s0 @ bs \<and>
                     lambda_path (obj t') = lambda_path s0 @ ls @ [desired_lambda (obj t)] \<and>
                     length bs = Suc (length ls) \<and> ls \<noteq> [] \<and> nonincreasing ls \<and>
                     last ls = max_corr t \<and>
                     (nonincreasing (ls @ [desired_lambda (obj t)])
                        \<longleftrightarrow> desired_lambda (obj t) \<le> max_corr t)))"
proof -
  from inv obtain bs ls where l0: "length (beta_path s0) = length (lambda_path s0)"
    and bp: "beta_path (obj t) = beta_path s0 @ bs" and lp: "lambda_path (obj t) = lambda_path s0 @ ls"
    and ll: "length bs = length ls" and ne: "ls \<noteq> []" and ni: "nonincreasing ls"
    and la: "last ls = max_corr t"
    by (auto simp: path_inv_def)
  have len: "length (beta_path (obj t)) = length (lambda_path (obj t))"
    using l0 bp lp ll by simp
  from body_paths [OF pos body len] obtain b v where v: "v < max_corr t"
    and bp': "beta_path (obj t') = beta_path (obj t) @ [b]"
    and c: "if stop then lambda_path (obj t') = lambda_path (obj t) @ [desired_lambda (obj t)]
            else lambda_path (obj t') = lambda_path (obj t) @ [v] \<and> max_corr t' = v \<and> b = beta t'"
    by blast
  show ?thesis
  proof (cases stop)
    case False
    then have lp': "lambda_path (obj t') = lambda_path (obj t) @ [v]" and m: "max_corr t' = v"
      using c by auto
    have "nonincreasing (ls @ [v])" using ne ni v la by (simp add: nonincreasing_snoc)
    then have "path_inv s0 t'"
      unfolding path_inv_def using l0 bp lp ll m
      by (intro conjI exI [of _ "bs @ [b]"] exI [of _ "ls @ [v]"]) (simp_all add: bp' lp')
    then show ?thesis using False v m len by (simp add: bp' lp')
  next
    case True
    then have lp': "lambda_path (obj t') = lambda_path (obj t) @ [desired_lambda (obj t)]"
      using c by simp
    have "nonincreasing (ls @ [desired_lambda (obj t)]) \<longleftrightarrow> desired_lambda (obj t) \<le> max_corr t"
      using ne ni la by (simp add: nonincreasing_snoc)
    then have "\<exists>bs ls. beta_path (obj t') = beta_path s0 @ bs \<and>
                     lambda_path (obj t') = lambda_path s0 @ ls @ [desired_lambda (obj t)] \<and>
                     length bs = Suc (length ls) \<and> ls \<noteq> [] \<and> nonincreasing ls \<and>
                     last ls = max_corr t \<and>
                     (nonincreasing (ls @ [desired_lambda (obj t)])
                        \<longleftrightarrow> desired_lambda (obj t) \<le> max_corr t)"
      using bp lp ll ne ni la
      by (intro exI [of _ "bs @ [b]"] exI [of _ ls]) (simp add: bp' lp')
    then show ?thesis using True len by (simp add: bp' lp')
  qed
qed


lemma update_estimate_frame:
  assumes up: "update_estimate t bd yd nz gamma = Inr (stop, t')"
  shows "R_chol t' = R_chol t \<and> kick_out t' = kick_out t \<and> change_ind t' = change_ind t \<and>
         n_active (obj t') = n_active (obj t) \<and> active_set (obj t') = active_set (obj t) \<and>
         is_active (obj t') = is_active (obj t) \<and> p_f (obj t') = p_f (obj t) \<and>
         X_f (obj t') = X_f (obj t) \<and> elastic_net (obj t') = elastic_net (obj t) \<and>
         lambda_2 (obj t') = lambda_2 (obj t) \<and> use_cholesky (obj t') = use_cholesky (obj t) \<and>
         lasso (obj t') = lasso (obj t) \<and> desired_lambda (obj t') = desired_lambda (obj t) \<and>
         (stop \<longrightarrow> lasso (obj t))"
proof -
  obtain b' where
    fold: "foldE (\<lambda>i b. bindE (nthE (active_set (obj t)) (int i)) (\<lambda>a. bindE (nthE b (int a)) (\<lambda>ba.
                      bindE (nthE bd (int i)) (\<lambda>d. updE b (int a) (ba + gamma * d)))))
               [0..<n_active (obj t)] (beta t) = Inr b'"
    and bt': "beta t' = b'" and mt': "max_corr t' = max_corr t - gamma * nz"
    and f: "kick_out t' = kick_out t" "change_ind t' = change_ind t" "R_chol t' = R_chol t"
    and stp: "stop = (lasso (obj t) \<and> max_corr t - gamma * nz \<le> desired_lambda (obj t))"
    and ob1: "stop \<Longrightarrow>
        InterpolateBeta ((obj t)\<lparr>beta_path := beta_path (obj t) @ [b'],
                           lambda_path := lambda_path (obj t) @ [max_corr t - gamma * nz]\<rparr>)
           (max_corr t - gamma * nz) = Inr (obj t')"
    and ob2: "\<not> stop \<Longrightarrow> obj t' = (obj t)\<lparr>beta_path := beta_path (obj t) @ [b'],
                           lambda_path := lambda_path (obj t) @ [max_corr t - gamma * nz]\<rparr>"
    by (rule update_estimate_Inr [OF up]) blast
  show ?thesis
  proof (cases stop)
    case False
    then show ?thesis using f ob2 by simp
  next
    case True
    let ?s2 = "(obj t)\<lparr>beta_path := beta_path (obj t) @ [b'],
                           lambda_path := lambda_path (obj t) @ [max_corr t - gamma * nz]\<rparr>"
    from ob1 [OF True] have "InterpolateBeta ?s2 (max_corr t - gamma * nz) = Inr (obj t')" by simp
    from InterpolateBeta_Inr [OF this] obtain interp where
      "obj t' = ?s2\<lparr>beta_path := (beta_path ?s2)[length (beta_path ?s2) - 1 :=
                    map2 (\<lambda>x y. (1 - interp) * x + interp * y)
                      (beta_path ?s2 ! (length (beta_path ?s2) - 2))
                      (beta_path ?s2 ! (length (beta_path ?s2) - 1))],
                  lambda_path := (lambda_path ?s2)[length (beta_path ?s2) - 1 := desired_lambda ?s2]\<rparr>"
      by blast
    then show ?thesis using f True stp by simp
  qed
qed

lemma body_frame:
  assumes body: "DoLARS_body solve t = Inr (stop, t')"
  obtains t1 where "enter_or_leave t = Inr t1"
    and "R_chol t' = R_chol t1" "n_active (obj t') = n_active (obj t1)"
    and "active_set (obj t') = active_set (obj t1)" "is_active (obj t') = is_active (obj t1)"
    and "p_f (obj t') = p_f (obj t)" "X_f (obj t') = X_f (obj t)"
    and "elastic_net (obj t') = elastic_net (obj t)" "lambda_2 (obj t') = lambda_2 (obj t)"
    and "use_cholesky (obj t') = use_cholesky (obj t)" "lasso (obj t') = lasso (obj t)"
    and "desired_lambda (obj t') = desired_lambda (obj t)"
    and "stop \<longrightarrow> lasso (obj t)" and "\<not> lasso (obj t) \<longrightarrow> \<not> kick_out t'"
proof -
  obtain t1 sv bd nz yd gamma ci ko where
    en: "enter_or_leave t = Inr t1" and sg: "signs t1 = Inr sv"
    and dir: "direction solve t1 sv = Inr (bd, nz)"
    and yh: "ComputeYHatDirection (obj t1) bd = Inr yd"
    and sl: "step_length t1 bd yd nz = Inr (gamma, ci, ko)"
    and up: "update_estimate (t1\<lparr>change_ind := ci, kick_out := ko\<rparr>) bd yd nz gamma = Inr (stop, t')"
    by (rule DoLARS_body_Inr [OF body])
  note fr = enter_or_leave_frame [OF en]
  note uf = update_estimate_frame [OF up]
  have ko: "\<not> lasso (obj t) \<longrightarrow> \<not> ko"
    using sl fr by (auto simp: step_length_def bindE_eq_Inr)
  show ?thesis
    by (rule that [OF en]) (use fr uf ko in simp_all)
qed




section \<open>The Cholesky factor and the active set\<close>




text \<open>The definitions run on explicit inputs.\<close>

lemmas eval_defs = n_rows_def n_cols_def
  DoLARS_def DoLARS_init_def index_max_def loop_guard_def EPS_def DoLARS_body_def
  enter_or_leave_def signs_def direction_def normalize_def ComputeYHatDirection_def
  inactive_bound_def lasso_bound_def step_length_def update_estimate_def InterpolateBeta_def
  Activate_def Deactivate_def CholeskyInsert_def solve_trimatl_trans_def
  solve_upper_def c_sqrt_def norm2_def nthE_def updE_def colE_def dotE_def axpby_def elem_def
  u32_dec_def u32_minus_one_def Let_def upt_rec

lemmas chol_simps = CholeskyDelete_def leading_block_def shed_col_def shed_row_def
  Givens_step_def GivensRotate_def span2_def set_span2_def mult2_def





section \<open>Sparsity of the coefficient path\<close>




lemma EPS_pos: "0 < EPS"
  by (simp add: EPS_def)





section \<open>Termination without the LASSO\<close>

lemma init_fields:
  assumes "DoLARS_init s = Inr t"
  shows "\<not> kick_out t" "R_chol t = []" "beta t = replicate (p_f s) 0"
    "n_active (obj t) = n_active s" "active_set (obj t) = active_set s"
    "is_active (obj t) = is_active s" "p_f (obj t) = p_f s" "lasso (obj t) = lasso s"
    "desired_lambda (obj t) = desired_lambda s" "use_cholesky (obj t) = use_cholesky s"
    "X_f (obj t) = X_f s" "elastic_net (obj t) = elastic_net s"
    "beta_path (obj t) = beta_path s @ [replicate (p_f s) 0]"
    "lambda_path (obj t) = lambda_path s @ [max_corr t]"
  using assms
  by (auto simp: DoLARS_init_def Let_def bindE_eq_Inr split: prod.splits if_splits)





section \<open>The two paths\<close>

lemma init_path_inv:
  assumes "DoLARS_init s0 = Inr t0" "length (beta_path s0) = length (lambda_path s0)"
  shows "path_inv s0 t0"
  using init_fields [OF assms(1)] assms(2)
  by (simp add: path_inv_def nonincreasing_def)

lemma path_inv_len:
  "path_inv s0 t \<Longrightarrow> length (beta_path (obj t)) = length (lambda_path (obj t))"
  by (auto simp: path_inv_def)

lemma loop_path_inv:
  "path_inv s0 t \<Longrightarrow> DoLARS_loop solve fuel t = Some (Inr t') \<Longrightarrow>
     \<exists>bs ls. beta_path (obj t') = beta_path s0 @ bs \<and> lambda_path (obj t') = lambda_path s0 @ ls \<and>
       length bs = length ls \<and> ls \<noteq> [] \<and>
       ((lasso (obj t) \<longrightarrow> desired_lambda (obj t) \<le> max_corr t) \<longrightarrow> nonincreasing ls)"
proof (induction fuel arbitrary: t)
  case 0
  then have "t' = t" by (simp split: if_splits)
  then show ?case using 0(1) by (auto simp: path_inv_def)
next
  case (Suc fuel)
  show ?case
  proof (cases "loop_guard t")
    case False
    then have "t' = t" using Suc.prems by simp
    then show ?thesis using Suc.prems(1) by (auto simp: path_inv_def)
  next
    case True
    then have pos: "0 < max_corr t" using EPS_pos by (simp add: loop_guard_def)
    show ?thesis
    proof (cases "DoLARS_body solve t")
      case (Inl e)
      then show ?thesis using True Suc.prems by simp
    next
      case (Inr q)
      obtain stop t1 where q: "q = (stop, t1)" by (cases q)
      note body = Inr [unfolded q]
      note b = body_path_inv [OF Suc.prems(1) pos body]
      obtain u where fr: "lasso (obj t1) = lasso (obj t)"
        "desired_lambda (obj t1) = desired_lambda (obj t)" "stop \<longrightarrow> lasso (obj t)"
        by (rule body_frame [OF body])
      from body_paths [OF pos body path_inv_len [OF Suc.prems(1)]]
      obtain v where v: "stop = (lasso (obj t) \<and> v \<le> desired_lambda (obj t))"
        "\<not> stop \<longrightarrow> max_corr t1 = v"
        by (auto split: if_splits)
      show ?thesis
      proof (cases stop)
        case True
        then have "t' = t1" using \<open>loop_guard t\<close> Inr q Suc.prems by simp
        with b True obtain bs ls where
          bl: "beta_path (obj t') = beta_path s0 @ bs"
            "lambda_path (obj t') = lambda_path s0 @ ls @ [desired_lambda (obj t)]"
            "length bs = Suc (length ls)"
            "nonincreasing (ls @ [desired_lambda (obj t)])
               \<longleftrightarrow> desired_lambda (obj t) \<le> max_corr t"
          by blast
        have "(lasso (obj t) \<longrightarrow> desired_lambda (obj t) \<le> max_corr t) \<longrightarrow>
           nonincreasing (ls @ [desired_lambda (obj t)])"
          using bl(4) fr(3) True by simp
        then show ?thesis
          using bl(1-3)
          by (intro exI [of _ bs] exI [of _ "ls @ [desired_lambda (obj t)]"]) simp
      next
        case False
        then have run: "DoLARS_loop solve fuel t1 = Some (Inr t')"
          using \<open>loop_guard t\<close> Inr q Suc.prems by simp
        have p1: "path_inv s0 t1" using b False by simp
        have dl: "lasso (obj t1) \<longrightarrow> desired_lambda (obj t1) \<le> max_corr t1"
          using v False fr by auto
        from Suc.IH [OF p1 run] dl show ?thesis by blast
      qed
    qed
  qed
qed

lemma DoLARS_paths:
  assumes len: "length (beta_path s0) = length (lambda_path s0)"
    and init: "DoLARS_init s0 = Inr t0"
    and run: "DoLARS solve fuel s0 = Some (Inr s')"
  shows "\<exists>bs ls. beta_path s' = beta_path s0 @ bs \<and> lambda_path s' = lambda_path s0 @ ls \<and>
       length bs = length ls \<and> ls \<noteq> [] \<and>
       ((lasso s0 \<longrightarrow> desired_lambda s0 \<le> max_corr t0) \<longrightarrow> nonincreasing ls)"
proof -
  from run init obtain t' where t': "DoLARS_loop solve fuel t0 = Some (Inr t')" "s' = obj t'"
    by (cases "DoLARS_loop solve fuel t0"; cases "the (DoLARS_loop solve fuel t0)")
       (auto simp: DoLARS_def)
  from loop_path_inv [OF init_path_inv [OF init len] t'(1)] init_fields(8,9) [OF init] t'(2)
  show ?thesis by simp
qed








section \<open>The state at the start of a run\<close>

lemma Init3_fields:
  assumes "Init3 s X y uc = Inr s'"
  shows "n_active s' = 0" "active_set s' = []" "is_active s' = replicate (p_f s') False"
    "beta_path s' = beta_path s" "lambda_path s' = lambda_path s"
  using assms
  by (auto simp: Init3_def ComputeXty_def ComputeGram_def Let_def bindE_eq_Inr
      split: if_splits)

lemma DoLARS_prefix:
  assumes len: "length (beta_path s) = length (lambda_path s)"
    and run: "DoLARS solve fuel s = Some (Inr s')"
  shows "\<exists>bs ls. beta_path s' = beta_path s @ bs \<and> lambda_path s' = lambda_path s @ ls \<and>
           length bs = length ls \<and> ls \<noteq> []"
proof (cases "DoLARS_init s")
  case (Inl e)
  then show ?thesis using run by (simp add: DoLARS_def)
next
  case (Inr t0)
  from DoLARS_paths [OF len Inr run] show ?thesis by blast
qed

text \<open>
  Claim C9, amended. At the start of every call of \<^verbatim>\<open>DoLARS\<close> the Cholesky factor is the
  empty matrix, the estimator is the zero vector and the kicking-out state is off; the
  active set, its size and the two paths are those the object had, with one entry
  appended to each path. The three-argument \<^verbatim>\<open>Init\<close> empties the active set and keeps the
  two paths. The constructor leaves both paths and the active set empty. A call of
  \<^verbatim>\<open>DoLARS\<close> on an object whose paths have the same length returns paths that have the
  paths of the object at the front, followed by the entries of the run.
\<close>

theorem run_start_state:
  "(DoLARS_init s = Inr t
      \<longrightarrow> R_chol t = [] \<and> beta t = replicate (p_f s) 0 \<and> \<not> kick_out t \<and>
          n_active (obj t) = n_active s \<and> active_set (obj t) = active_set s \<and>
          is_active (obj t) = is_active s \<and>
          beta_path (obj t) = beta_path s @ [replicate (p_f s) 0] \<and>
          lambda_path (obj t) = lambda_path s @ [max_corr t]) \<and>
   (Init3 s X y uc = Inr s1
      \<longrightarrow> n_active s1 = 0 \<and> active_set s1 = [] \<and> is_active s1 = replicate (p_f s1) False \<and>
          beta_path s1 = beta_path s \<and> lambda_path s1 = lambda_path s) \<and>
   beta_path (Lars u) = [] \<and> lambda_path (Lars u) = [] \<and> active_set (Lars u) = [] \<and>
   (length (beta_path s) = length (lambda_path s) \<and> DoLARS solve fuel s = Some (Inr s')
      \<longrightarrow> (\<exists>bs ls. beta_path s' = beta_path s @ bs \<and> lambda_path s' = lambda_path s @ ls \<and>
             length bs = length ls \<and> ls \<noteq> []))"
proof -
  have c1: "DoLARS_init s = Inr t
      \<longrightarrow> R_chol t = [] \<and> beta t = replicate (p_f s) 0 \<and> \<not> kick_out t \<and>
          n_active (obj t) = n_active s \<and> active_set (obj t) = active_set s \<and>
          is_active (obj t) = is_active s \<and>
          beta_path (obj t) = beta_path s @ [replicate (p_f s) 0] \<and>
          lambda_path (obj t) = lambda_path s @ [max_corr t]"
    using init_fields [of s t] by simp
  have c2: "Init3 s X y uc = Inr s1
      \<longrightarrow> n_active s1 = 0 \<and> active_set s1 = [] \<and> is_active s1 = replicate (p_f s1) False \<and>
          beta_path s1 = beta_path s \<and> lambda_path s1 = lambda_path s"
    using Init3_fields [of s X y uc s1] by simp
  have c3: "beta_path (Lars u) = []" "lambda_path (Lars u) = []" "active_set (Lars u) = []"
    by (simp_all add: Lars_def)
  have c4: "length (beta_path s) = length (lambda_path s) \<and>
      DoLARS solve fuel s = Some (Inr s')
      \<longrightarrow> (\<exists>bs ls. beta_path s' = beta_path s @ bs \<and> lambda_path s' = lambda_path s @ ls \<and>
             length bs = length ls \<and> ls \<noteq> [])"
    using DoLARS_prefix [of s solve fuel s'] by blast
  show ?thesis by (intro conjI) (fact c1, fact c2, fact c3(1), fact c3(2), fact c3(3), fact c4)
qed

text \<open>
  The claim C9 as the specification states it fails on the code. A second call of
  \<^verbatim>\<open>DoLARS\<close> on the object that the one-column run returned starts with one active
  variable and returns paths that begin with the two entries of the first run; after a
  call of \<^verbatim>\<open>Init\<close> in between the active set is empty and the paths still begin with the
  entries of the first run.
\<close>

theorem run_start_state_counterexample:
  "Init3 (Lars raw0) [[3, 4]] [6, 8] True = Inr one_col \<and>
   DoLARS no_solver (Suc 0) one_col = Some (Inr (obj one_col_final)) \<and>
   n_active (obj one_col_final) = 1 \<and> active_set (obj one_col_final) = [0] \<and>
   beta_path (obj one_col_final) = [[0], [2]] \<and> lambda_path (obj one_col_final) = [50, 0] \<and>
   DoLARS no_solver (Suc 0) (obj one_col_final) = Some (Inr one_col_again) \<and>
   beta_path one_col_again = [[0], [2], [0]] \<and> lambda_path one_col_again = [50, 0, 50] \<and>
   Init3 (obj one_col_final) [[3, 4]] [6, 8] True = Inr one_col_reinit \<and>
   DoLARS no_solver (Suc 0) one_col_reinit
     = Some (Inr ((obj one_col_final)\<lparr>beta_path := [[0], [2], [0], [2]],
                    lambda_path := [50, 0, 50, 0]\<rparr>))"
  by (simp add: eval_defs Init3_def ComputeXty_def Lars_def raw0_def one_col_def
      one_col_final_def one_col_again_def one_col_reinit_def real_sqrt_divide numeral_2_eq_2)

lemma one_col_again_init_run: "DoLARS_init (obj one_col_final) = Inr one_col_again_init"
  by (simp add: eval_defs one_col_final_def one_col_def one_col_again_def
      one_col_again_init_def numeral_2_eq_2)

lemma one_col_reinit_run:
  "Init3 (obj one_col_final) [[3, 4]] [6, 8] True = Inr one_col_reinit"
  by (simp add: eval_defs Init3_def ComputeXty_def one_col_def one_col_final_def
      one_col_reinit_def)

lemma one_col_again_run:
  "DoLARS solve (Suc 0) (obj one_col_final) = Some (Inr one_col_again)"
  by (simp add: DoLARS_def one_col_again_init_run)
     (simp add: loop_guard_def one_col_again_init_def one_col_again_def one_col_final_def
      one_col_def)

theorem run_start_state_witness:
  "DoLARS_init (obj one_col_final) = Inr one_col_again_init \<and>
   R_chol one_col_again_init = [] \<and> beta one_col_again_init = [0] \<and>
   n_active (obj one_col_again_init) = 1 \<and> active_set (obj one_col_again_init) = [0] \<and>
   beta_path (obj one_col_again_init) = [[0], [2], [0]] \<and>
   lambda_path (obj one_col_again_init) = [50, 0, 50] \<and>
   Init3 (obj one_col_final) [[3, 4]] [6, 8] True = Inr one_col_reinit \<and>
   n_active one_col_reinit = 0 \<and> active_set one_col_reinit = [] \<and>
   beta_path one_col_reinit = [[0], [2]] \<and> lambda_path one_col_reinit = [50, 0] \<and>
   length (beta_path (obj one_col_final)) = length (lambda_path (obj one_col_final)) \<and>
   DoLARS no_solver (Suc 0) (obj one_col_final) = Some (Inr one_col_again) \<and>
   (\<exists>bs ls. beta_path one_col_again = [[0], [2]] @ bs \<and>
      lambda_path one_col_again = [50, 0] @ ls \<and> length bs = length ls \<and> ls \<noteq> [])"
proof -
  note A = run_start_state [where s = "obj one_col_final" and t = one_col_again_init
      and X = "[[3, 4]]" and y = "[6, 8]" and uc = True and ?s1.0 = one_col_reinit
      and solve = no_solver and fuel = "Suc 0" and s' = one_col_again]
  have h: "length (beta_path (obj one_col_final)) = length (lambda_path (obj one_col_final))"
    "beta_path (obj one_col_final) = [[0], [2]]" "lambda_path (obj one_col_final) = [50, 0]"
    "n_active (obj one_col_final) = 1" "active_set (obj one_col_final) = [0]"
    "p_f (obj one_col_final) = 1"
    by (simp_all add: one_col_final_def one_col_def)
  have a1: "R_chol one_col_again_init = [] \<and>
     beta one_col_again_init = replicate (p_f (obj one_col_final)) 0 \<and>
     n_active (obj one_col_again_init) = n_active (obj one_col_final) \<and>
     active_set (obj one_col_again_init) = active_set (obj one_col_final) \<and>
     beta_path (obj one_col_again_init)
       = beta_path (obj one_col_final) @ [replicate (p_f (obj one_col_final)) 0] \<and>
     lambda_path (obj one_col_again_init)
       = lambda_path (obj one_col_final) @ [max_corr one_col_again_init]"
    using A one_col_again_init_run by blast
  have a2: "n_active one_col_reinit = 0 \<and> active_set one_col_reinit = [] \<and>
     beta_path one_col_reinit = beta_path (obj one_col_final) \<and>
     lambda_path one_col_reinit = lambda_path (obj one_col_final)"
    using A one_col_reinit_run by blast
  have a3: "\<exists>bs ls. beta_path one_col_again = beta_path (obj one_col_final) @ bs \<and>
      lambda_path one_col_again = lambda_path (obj one_col_final) @ ls \<and>
      length bs = length ls \<and> ls \<noteq> []"
    using A h(1) one_col_again_run by blast
  have m: "max_corr one_col_again_init = 50" by (simp add: one_col_again_init_def)
  show ?thesis
    using one_col_again_init_run a1 a2 a3 one_col_reinit_run one_col_again_run h m
    by simp
qed

section \<open>The radicand of an insertion\<close>

lemma CholeskyInsert_eq:
  assumes R: "is_mat n n R" and n: "0 < n" and r: "solve_trimatl_trans R g = Inr r"
  shows "CholeskyInsert s R x g =
           (if radicand s x r < 0 then Inl NotFinite
            else Inr (map (\<lambda>c. c @ [0]) R @ [r @ [sqrt (radicand s x r)]]))"
proof -
  have "n_rows R = n" using is_mat_dims [OF R] n by simp
  then show ?thesis
    using n r by (simp add: CholeskyInsert_def Let_def c_sqrt_def radicand_def)
qed

lemma singular_no_solution:
  assumes R: "is_mat n n R" and g: "length g = n" and r: "solve_trimatl_trans R g = Inr r"
  shows "solve_trimatl_trans (map (\<lambda>c. c @ [0]) R @ [r @ [0]]) b \<noteq> Inr u"
proof
  let ?R = "map (\<lambda>c. c @ [0]) R @ [r @ [0]]"
  assume s: "solve_trimatl_trans ?R b = Inr u"
  have lr: "length r = n" using solve_trimatl_trans_sound [OF R g r] by simp
  have lR: "length R = n" using R by (simp add: is_mat_def)
  have m: "is_mat (Suc n) (Suc n) ?R"
    using R lr by (auto simp: is_mat_def)
  have nr: "n_rows ?R = Suc n" using is_mat_dims [OF m] by simp
  have lb: "length b = Suc n"
    using s nr by (auto simp: solve_trimatl_trans_def split: if_splits)
  have "?R ! n ! n \<noteq> 0"
    using solve_trimatl_trans_sound [OF m lb s] by blast
  moreover have "?R ! n ! n = 0" using lR lr by (simp add: nth_append)
  ultimately show False by simp
qed

text \<open>
  Claim C8, amended. \<^verbatim>\<open>CholeskyInsert\<close> does not test the radicand. When the factor is
  \<open>n\<close> by \<open>n\<close> with \<open>n > 0\<close> and the triangular solve returns \<open>R_k\<close>, the insertion returns
  the factor extended by the column \<open>(R_k, sqrt radicand)\<close> whenever the radicand is not
  negative, also when it is zero; for a negative radicand the entry is the square root of
  a negative number, which is NaN in the C++ and the value \<open>NotFinite\<close> here. With an
  empty factor the entry is \<open>sqrt (x\<^sup>T x + \<lambda>\<^sub>2)\<close> under Elastic Net, tested no more, and the
  norm of the column otherwise. The factor returned for a zero radicand has a zero on
  its diagonal, and no triangular solve with it returns a solution.
\<close>

theorem CholeskyInsert_unchecked:
  "(is_mat n n R \<and> 0 < n \<and> solve_trimatl_trans R g = Inr r
      \<longrightarrow> CholeskyInsert s R x g =
            (if radicand s x r < 0 then Inl NotFinite
             else Inr (map (\<lambda>c. c @ [0]) R @ [r @ [sqrt (radicand s x r)]]))) \<and>
   CholeskyInsert s [] x g =
     (if elastic_net s then
        (if dot x x + lambda_2 s < 0 then Inl NotFinite
         else Inr [[sqrt (dot x x + lambda_2 s)]])
      else Inr [[sqrt (dot x x)]]) \<and>
   (is_mat n n R \<and> 0 < n \<and> length g = n \<and> solve_trimatl_trans R g = Inr r \<and>
    radicand s x r = 0
      \<longrightarrow> CholeskyInsert s R x g = Inr (map (\<lambda>c. c @ [0]) R @ [r @ [0]]) \<and>
          (\<forall>b u. solve_trimatl_trans (map (\<lambda>c. c @ [0]) R @ [r @ [0]]) b \<noteq> Inr u))"
proof -
  have c1: "is_mat n n R \<and> 0 < n \<and> solve_trimatl_trans R g = Inr r
      \<longrightarrow> CholeskyInsert s R x g =
            (if radicand s x r < 0 then Inl NotFinite
             else Inr (map (\<lambda>c. c @ [0]) R @ [r @ [sqrt (radicand s x r)]]))"
    using CholeskyInsert_eq [of n R g r s x] by blast
  have c2: "CholeskyInsert s [] x g =
     (if elastic_net s then
        (if dot x x + lambda_2 s < 0 then Inl NotFinite
         else Inr [[sqrt (dot x x + lambda_2 s)]])
      else Inr [[sqrt (dot x x)]])"
    by (simp add: CholeskyInsert_def n_rows_def c_sqrt_def norm2_def)
  have c3: "is_mat n n R \<and> 0 < n \<and> length g = n \<and> solve_trimatl_trans R g = Inr r \<and>
    radicand s x r = 0
      \<longrightarrow> CholeskyInsert s R x g = Inr (map (\<lambda>c. c @ [0]) R @ [r @ [0]]) \<and>
          (\<forall>b u. solve_trimatl_trans (map (\<lambda>c. c @ [0]) R @ [r @ [0]]) b \<noteq> Inr u)"
  proof
    assume a: "is_mat n n R \<and> 0 < n \<and> length g = n \<and> solve_trimatl_trans R g = Inr r \<and>
      radicand s x r = 0"
    then have "CholeskyInsert s R x g = Inr (map (\<lambda>c. c @ [0]) R @ [r @ [0]])"
      using CholeskyInsert_eq [of n R g r s x] by simp
    moreover have "\<forall>b u. solve_trimatl_trans (map (\<lambda>c. c @ [0]) R @ [r @ [0]]) b \<noteq> Inr u"
      using singular_no_solution [of n R g r] a by blast
    ultimately show "CholeskyInsert s R x g = Inr (map (\<lambda>c. c @ [0]) R @ [r @ [0]]) \<and>
          (\<forall>b u. solve_trimatl_trans (map (\<lambda>c. c @ [0]) R @ [r @ [0]]) b \<noteq> Inr u)"
      by blast
  qed
  show ?thesis by (intro conjI) (fact c1, fact c2, fact c3)
qed

text \<open>
  The claim C8 as the specification states it fails on the code. Inserting a column equal
  to the active one gives the radicand \<open>1 - 1 = 0\<close>, and the insertion returns a factor
  with a zero on its diagonal; so does the first insertion of the column \<open>(3, 4)\<close> under
  Elastic Net with \<open>\<lambda>\<^sub>2 = -25\<close>.
\<close>

theorem CholeskyInsert_counterexample:
  "solve_trimatl_trans [[1]] [1] = Inr [1] \<and> radicand plain0 [1] [1] = 0 \<and>
   CholeskyInsert plain0 [[1]] [1] [1] = Inr [[1, 0], [1, 0]] \<and>
   CholeskyInsert (raw0\<lparr>lambda_2 := - 25\<rparr>) [] [3, 4] [] = Inr [[0]]"
  by (simp add: eval_defs plain0_def raw0_def radicand_def)

theorem CholeskyInsert_unchecked_witness:
  "is_mat 1 1 [[5]] \<and> solve_trimatl_trans [[5]] [20] = Inr [4] \<and>
   radicand plain0 [0, 5, 4] [4] = 25 \<and>
   CholeskyInsert plain0 [[5]] [0, 5, 4] [20] = Inr [[5, 0], [4, 5]] \<and>
   is_mat 1 1 [[1]] \<and> solve_trimatl_trans [[1]] [1] = Inr [1] \<and>
   radicand plain0 [1] [1] = 0 \<and>
   CholeskyInsert plain0 [[1]] [1] [1] = Inr [[1, 0], [1, 0]] \<and>
   solve_trimatl_trans [[1, 0], [1, 0]] [1, 1] = Inl SolveError"
proof -
  have h: "is_mat 1 1 [[5]]" "0 < (1::nat)" "solve_trimatl_trans [[5]] [20] = Inr [4]"
    "radicand plain0 [0, 5, 4] [4] = 25" "is_mat 1 1 [[1]]" "length [1::real] = 1"
    "solve_trimatl_trans [[1]] [1] = Inr [1]" "radicand plain0 [1] [1] = 0"
    by (simp_all add: is_mat_def eval_defs plain0_def raw0_def radicand_def)
  note A = CholeskyInsert_unchecked [where n = 1 and R = "[[5]]" and g = "[20]"
      and r = "[4]" and s = plain0 and x = "[0, 5, 4]"]
  note B = CholeskyInsert_unchecked [where n = 1 and R = "[[1]]" and g = "[1]"
      and r = "[1]" and s = plain0 and x = "[1]"]
  have a1: "CholeskyInsert plain0 [[5]] [0, 5, 4] [20] =
            (if radicand plain0 [0, 5, 4] [4] < 0 then Inl NotFinite
             else Inr (map (\<lambda>c. c @ [0]) [[5]] @ [[4] @ [sqrt (radicand plain0 [0, 5, 4] [4])]]))"
    using A h(1-3) by blast
  have b1: "CholeskyInsert plain0 [[1]] [1] [1] = Inr (map (\<lambda>c. c @ [0]) [[1]] @ [[1] @ [0]]) \<and>
          (\<forall>b u. solve_trimatl_trans (map (\<lambda>c. c @ [0]) [[1]] @ [[1] @ [0]]) b \<noteq> Inr u)"
    using B h(2,5-8) by blast
  have e: "solve_trimatl_trans [[1, 0], [1, 0]] [1, 1] = Inl SolveError"
    by (simp add: eval_defs numeral_2_eq_2)
  have s25: "sqrt 25 = 5" using real_sqrt_abs [of 5] by simp
  show ?thesis using h a1 b1 e by (simp add: s25)
qed

section \<open>The kick-out of the LASSO\<close>

lemma step_length_kick:
  assumes l: "lasso (obj t)"
    and ib: "inactive_bound t yd nz = Inr (gamma, ci)"
    and wf: "n_active (obj t) \<le> length (active_set (obj t))"
      "\<forall>a \<in> set (active_set (obj t)). a < length (beta t)" "n_active (obj t) \<le> length bd"
    and k: "k < n_active (obj t)" and pos: "0 < lasso_ratio t bd k"
    and least: "\<forall>i < n_active (obj t). 0 < lasso_ratio t bd i \<longrightarrow>
                  lasso_ratio t bd k \<le> lasso_ratio t bd i"
    and first: "\<forall>i < k. lasso_ratio t bd i \<noteq> lasso_ratio t bd k"
    and lt: "lasso_ratio t bd k < gamma" and fin: "gamma \<le> DBL_MAX"
  shows "step_length t bd yd nz = Inr (lasso_ratio t bd k, k, True)"
proof -
  obtain b j where lb: "lasso_bound t bd = Inr (b, j)"
    using lasso_bound_total [OF wf] by fastforce
  have cand: "0 < lasso_ratio t bd k \<and> lasso_ratio t bd k < DBL_MAX"
    using pos lt fin by simp
  from lasso_bound_Inr [OF lb] cand k
  have j: "j < n_active (obj t)" "b = lasso_ratio t bd j" "0 < b"
    "\<forall>i < n_active (obj t). 0 < lasso_ratio t bd i \<longrightarrow> b \<le> lasso_ratio t bd i"
    "\<forall>i < j. lasso_ratio t bd i \<noteq> b"
    by blast+
  have eq: "lasso_ratio t bd j = lasso_ratio t bd k"
  proof (rule antisym)
    show "lasso_ratio t bd j \<le> lasso_ratio t bd k" using j(2,4) k pos by simp
    show "lasso_ratio t bd k \<le> lasso_ratio t bd j" using least j(1,2,3) by simp
  qed
  have "j = k"
  proof (rule ccontr)
    assume "j \<noteq> k"
    then consider "j < k" | "k < j" by linarith
    then show False
    proof cases
      case 1
      then show False using first eq by auto
    next
      case 2
      then show False using j(5) j(2) eq by auto
    qed
  qed
  then have "lasso_bound t bd = Inr (lasso_ratio t bd k, k)" using lb j(2) by simp
  then show ?thesis using ib l lt by (simp add: step_length_def)
qed

lemma body_flagging:
  assumes nk: "\<not> kick_out t" and body: "DoLARS_body solve t = Inr (stop, t')"
    and ko: "kick_out t'"
  shows "lasso (obj t) \<and> active_set (obj t') = active_set (obj t) @ [change_ind t] \<and>
         n_active (obj t') = n_active (obj t) + 1"
proof -
  obtain t1 where en: "enter_or_leave t = Inr t1"
    and f: "n_active (obj t') = n_active (obj t1)" "active_set (obj t') = active_set (obj t1)"
      "\<not> lasso (obj t) \<longrightarrow> \<not> kick_out t'"
    by (rule body_frame [OF body])
  have "Activate (obj t) (change_ind t) = Inr (obj t1)"
    using enter_or_leave_Inr [OF en] nk by simp
  then have "n_active (obj t1) = n_active (obj t) + 1"
    "active_set (obj t1) = active_set (obj t) @ [change_ind t]"
    by (auto simp: Activate_Inr)
  then show ?thesis using f ko by auto
qed

lemma body_removal:
  assumes ko: "kick_out t" and body: "DoLARS_body solve t = Inr (stop, t')"
  shows "change_ind t < length (active_set (obj t)) \<and>
         active_set (obj t') = take (change_ind t) (active_set (obj t))
                               @ drop (Suc (change_ind t)) (active_set (obj t)) \<and>
         n_active (obj t') = u32_dec (n_active (obj t)) \<and>
         is_active (obj t')
           = (is_active (obj t))[active_set (obj t) ! change_ind t := False] \<and>
         (if use_cholesky (obj t)
          then CholeskyDelete (R_chol t) (change_ind t) = Inr (R_chol t')
          else R_chol t' = R_chol t)"
proof -
  obtain t1 where en: "enter_or_leave t = Inr t1"
    and f: "R_chol t' = R_chol t1" "n_active (obj t') = n_active (obj t1)"
      "active_set (obj t') = active_set (obj t1)" "is_active (obj t') = is_active (obj t1)"
    by (rule body_frame [OF body])
  have d: "Deactivate (obj t) (change_ind t) = Inr (obj t1)"
    and c: "if use_cholesky (obj t)
            then CholeskyDelete (R_chol t) (change_ind t) = Inr (R_chol t1)
            else R_chol t1 = R_chol t"
    using enter_or_leave_Inr [OF en] ko by simp_all
  note df = Deactivate_fields [OF d]
  show ?thesis using df(1,2,3,8) f c by simp
qed

lemma body_step:
  assumes body: "DoLARS_body solve t = Inr (stop, t')"
  shows "\<exists>t1 bd yd nz gamma. enter_or_leave t = Inr t1 \<and>
           step_length t1 bd yd nz = Inr (gamma, change_ind t', kick_out t')"
proof -
  obtain t1 sv bd nz yd gamma ci ko where
    en: "enter_or_leave t = Inr t1" and "signs t1 = Inr sv"
    and "direction solve t1 sv = Inr (bd, nz)"
    and "ComputeYHatDirection (obj t1) bd = Inr yd"
    and st: "step_length t1 bd yd nz = Inr (gamma, ci, ko)"
    and up: "update_estimate (t1\<lparr>change_ind := ci, kick_out := ko\<rparr>) bd yd nz gamma
               = Inr (stop, t')"
    by (rule DoLARS_body_Inr [OF body])
  have "kick_out t' = ko" "change_ind t' = ci"
    using update_estimate_frame [OF up] by simp_all
  then show ?thesis using en st by blast
qed

text \<open>
  Claim C3. With the LASSO enabled and \<open>lasso_ratio t bd i\<close> the ratio
  \<^verbatim>\<open>-beta(active_set_[i]) / beta_direction(i)\<close>: if \<open>k\<close> is the first active position whose
  ratio is positive and smallest among the positive ratios, and this ratio is below the
  step \<open>gamma\<close> that the inactive variables allow (a finite \<^verbatim>\<open>double\<close>, so at most
  \<^verbatim>\<open>DBL_MAX\<close>), then the step is that ratio, the position \<open>k\<close> is recorded and the state is
  kicking-out. A position flagged by the step has a positive ratio, equal to the step.
  The iteration that sets the flag removes no variable: its active set is the one it
  started with plus the variable that entered. The flag and the position that the next
  iteration sees are the ones the step returned, and an iteration that starts in the
  kicking-out state deactivates the flagged position and, in the Cholesky branch,
  deletes its column from the factor.
\<close>

theorem lasso_deferred_kick_out:
  "(lasso (obj t) \<and> inactive_bound t yd nz = Inr (gamma, ci) \<and>
    n_active (obj t) \<le> length (active_set (obj t)) \<and>
    (\<forall>a \<in> set (active_set (obj t)). a < length (beta t)) \<and> n_active (obj t) \<le> length bd \<and>
    k < n_active (obj t) \<and> 0 < lasso_ratio t bd k \<and>
    (\<forall>i < n_active (obj t). 0 < lasso_ratio t bd i \<longrightarrow>
        lasso_ratio t bd k \<le> lasso_ratio t bd i) \<and>
    (\<forall>i < k. lasso_ratio t bd i \<noteq> lasso_ratio t bd k) \<and>
    lasso_ratio t bd k < gamma \<and> gamma \<le> DBL_MAX
      \<longrightarrow> step_length t bd yd nz = Inr (lasso_ratio t bd k, k, True)) \<and>
   (step_length t bd yd nz = Inr (g, c, True) \<and> \<not> kick_out t \<and> 0 < max_corr t \<and> 0 < nz
      \<longrightarrow> lasso (obj t) \<and>
          ((c < n_active (obj t) \<and> g = lasso_ratio t bd c \<and> 0 < lasso_ratio t bd c) \<or>
           (c = u32_minus_one \<and> g = DBL_MAX))) \<and>
   (\<not> kick_out u \<and> DoLARS_body solve u = Inr (stop, u') \<and> kick_out u'
      \<longrightarrow> lasso (obj u) \<and> active_set (obj u') = active_set (obj u) @ [change_ind u] \<and>
          n_active (obj u') = n_active (obj u) + 1) \<and>
   (DoLARS_body solve u = Inr (stop, u')
      \<longrightarrow> (\<exists>t1 bd yd nz gamma. enter_or_leave u = Inr t1 \<and>
             step_length t1 bd yd nz = Inr (gamma, change_ind u', kick_out u'))) \<and>
   (kick_out u \<and> DoLARS_body solve u = Inr (stop, u')
      \<longrightarrow> change_ind u < length (active_set (obj u)) \<and>
          active_set (obj u') = take (change_ind u) (active_set (obj u))
                                @ drop (Suc (change_ind u)) (active_set (obj u)) \<and>
          n_active (obj u') = u32_dec (n_active (obj u)) \<and>
          is_active (obj u')
            = (is_active (obj u))[active_set (obj u) ! change_ind u := False] \<and>
          (if use_cholesky (obj u)
           then CholeskyDelete (R_chol u) (change_ind u) = Inr (R_chol u')
           else R_chol u' = R_chol u))"
proof -
  have c1: "lasso (obj t) \<and> inactive_bound t yd nz = Inr (gamma, ci) \<and>
    n_active (obj t) \<le> length (active_set (obj t)) \<and>
    (\<forall>a \<in> set (active_set (obj t)). a < length (beta t)) \<and> n_active (obj t) \<le> length bd \<and>
    k < n_active (obj t) \<and> 0 < lasso_ratio t bd k \<and>
    (\<forall>i < n_active (obj t). 0 < lasso_ratio t bd i \<longrightarrow>
        lasso_ratio t bd k \<le> lasso_ratio t bd i) \<and>
    (\<forall>i < k. lasso_ratio t bd i \<noteq> lasso_ratio t bd k) \<and>
    lasso_ratio t bd k < gamma \<and> gamma \<le> DBL_MAX
      \<longrightarrow> step_length t bd yd nz = Inr (lasso_ratio t bd k, k, True)"
  proof
    assume a: "lasso (obj t) \<and> inactive_bound t yd nz = Inr (gamma, ci) \<and>
      n_active (obj t) \<le> length (active_set (obj t)) \<and>
      (\<forall>a \<in> set (active_set (obj t)). a < length (beta t)) \<and> n_active (obj t) \<le> length bd \<and>
      k < n_active (obj t) \<and> 0 < lasso_ratio t bd k \<and>
      (\<forall>i < n_active (obj t). 0 < lasso_ratio t bd i \<longrightarrow>
          lasso_ratio t bd k \<le> lasso_ratio t bd i) \<and>
      (\<forall>i < k. lasso_ratio t bd i \<noteq> lasso_ratio t bd k) \<and>
      lasso_ratio t bd k < gamma \<and> gamma \<le> DBL_MAX"
    show "step_length t bd yd nz = Inr (lasso_ratio t bd k, k, True)"
      by (rule step_length_kick [of t yd nz gamma ci bd k]) (use a in simp_all)
  qed
  have c2: "step_length t bd yd nz = Inr (g, c, True) \<and> \<not> kick_out t \<and> 0 < max_corr t \<and>
      0 < nz
      \<longrightarrow> lasso (obj t) \<and>
          ((c < n_active (obj t) \<and> g = lasso_ratio t bd c \<and> 0 < lasso_ratio t bd c) \<or>
           (c = u32_minus_one \<and> g = DBL_MAX))"
    using step_length_Inr [of t bd yd nz g c True] by simp
  have c3: "\<not> kick_out u \<and> DoLARS_body solve u = Inr (stop, u') \<and> kick_out u'
      \<longrightarrow> lasso (obj u) \<and> active_set (obj u') = active_set (obj u) @ [change_ind u] \<and>
          n_active (obj u') = n_active (obj u) + 1"
    using body_flagging [of u solve stop u'] by blast
  have c4: "DoLARS_body solve u = Inr (stop, u')
      \<longrightarrow> (\<exists>t1 bd yd nz gamma. enter_or_leave u = Inr t1 \<and>
             step_length t1 bd yd nz = Inr (gamma, change_ind u', kick_out u'))"
    using body_step [of solve u stop u'] by blast
  have c5: "kick_out u \<and> DoLARS_body solve u = Inr (stop, u')
      \<longrightarrow> change_ind u < length (active_set (obj u)) \<and>
          active_set (obj u') = take (change_ind u) (active_set (obj u))
                                @ drop (Suc (change_ind u)) (active_set (obj u)) \<and>
          n_active (obj u') = u32_dec (n_active (obj u)) \<and>
          is_active (obj u')
            = (is_active (obj u))[active_set (obj u) ! change_ind u := False] \<and>
          (if use_cholesky (obj u)
           then CholeskyDelete (R_chol u) (change_ind u) = Inr (R_chol u')
           else R_chol u' = R_chol u)"
  proof
    assume a: "kick_out u \<and> DoLARS_body solve u = Inr (stop, u')"
    show "change_ind u < length (active_set (obj u)) \<and>
          active_set (obj u') = take (change_ind u) (active_set (obj u))
                                @ drop (Suc (change_ind u)) (active_set (obj u)) \<and>
          n_active (obj u') = u32_dec (n_active (obj u)) \<and>
          is_active (obj u')
            = (is_active (obj u))[active_set (obj u) ! change_ind u := False] \<and>
          (if use_cholesky (obj u)
           then CholeskyDelete (R_chol u) (change_ind u) = Inr (R_chol u')
           else R_chol u' = R_chol u)"
      by (rule body_removal [of u solve stop u']) (use a in simp_all)
  qed
  show ?thesis by (intro conjI) (fact c1, fact c2, fact c3, fact c4, fact c5)
qed

lemma lasso_pre_run: "DoLARS_body solve lasso_pre = Inr (False, lasso_flag)"
  by (simp add: eval_defs lasso_obj_def lasso_pre_def lasso_flag_def DBL_MAX_def
      real_sqrt_divide numeral_2_eq_2 numeral_3_eq_3)

lemma lasso_flag_run: "DoLARS_body solve lasso_flag = Inr (False, lasso_post)"
  by (simp add: eval_defs chol_simps lasso_obj_def lasso_flag_def lasso_post_def DBL_MAX_def
      real_sqrt_divide numeral_2_eq_2 numeral_3_eq_3)

lemma lasso_mid_bound:
  "inactive_bound lasso_mid [3 / 5, 4 / 5, 0] (3 / 5) = Inr (5, 2)"
  by (simp add: eval_defs lasso_obj_def lasso_pre_def lasso_mid_def numeral_3_eq_3)

theorem lasso_deferred_kick_out_witness:
  "lasso (obj lasso_mid) \<and>
   inactive_bound lasso_mid [3 / 5, 4 / 5, 0] (3 / 5) = Inr (5, 2) \<and>
   lasso_ratio lasso_mid [3 / 5, 16 / 15] 0 = 5 / 3 \<and>
   lasso_ratio lasso_mid [3 / 5, 16 / 15] 1 = 0 \<and>
   step_length lasso_mid [3 / 5, 16 / 15] [3 / 5, 4 / 5, 0] (3 / 5) = Inr (5 / 3, 0, True) \<and>
   \<not> kick_out lasso_pre \<and> DoLARS_body no_solver lasso_pre = Inr (False, lasso_flag) \<and>
   kick_out lasso_flag \<and> change_ind lasso_flag = 0 \<and>
   active_set (obj lasso_pre) = [0] \<and> active_set (obj lasso_flag) = [0, 1] \<and>
   (\<exists>t1 bd yd nz gamma. enter_or_leave lasso_pre = Inr t1 \<and>
      step_length t1 bd yd nz = Inr (gamma, 0, True)) \<and>
   DoLARS_body no_solver lasso_flag = Inr (False, lasso_post) \<and>
   active_set (obj lasso_post) = [1] \<and> n_active (obj lasso_post) = 1 \<and>
   is_active (obj lasso_post) = [False, True, False] \<and>
   CholeskyDelete (R_chol lasso_flag) 0 = Inr [[3 / 4]]"
proof -
  note A = lasso_deferred_kick_out [where t = lasso_mid and yd = "[3 / 5, 4 / 5, 0]"
      and nz = "3 / 5" and gamma = 5 and ci = 2 and bd = "[3 / 5, 16 / 15]" and k = 0
      and g = "5 / 3" and c = 0 and u = lasso_pre and solve = no_solver and stop = False
      and u' = lasso_flag]
  note B = lasso_deferred_kick_out [where u = lasso_flag and solve = no_solver
      and stop = False and u' = lasso_post]
  have r: "lasso_ratio lasso_mid [3 / 5, 16 / 15] 0 = 5 / 3"
    "lasso_ratio lasso_mid [3 / 5, 16 / 15] 1 = 0"
    by (simp_all add: lasso_ratio_def lasso_mid_def lasso_pre_def lasso_obj_def)
  have h: "lasso (obj lasso_mid)"
    "n_active (obj lasso_mid) \<le> length (active_set (obj lasso_mid))"
    "\<forall>a \<in> set (active_set (obj lasso_mid)). a < length (beta lasso_mid)"
    "n_active (obj lasso_mid) \<le> length [3 / 5, 16 / 15 :: real]"
    "0 < n_active (obj lasso_mid)" "n_active (obj lasso_mid) = 2"
    "\<not> kick_out lasso_mid" "0 < max_corr lasso_mid" "0 < (3 / 5 :: real)"
    by (simp_all add: lasso_mid_def lasso_pre_def lasso_obj_def)
  have least: "\<forall>i < n_active (obj lasso_mid). 0 < lasso_ratio lasso_mid [3 / 5, 16 / 15] i \<longrightarrow>
      lasso_ratio lasso_mid [3 / 5, 16 / 15] 0 \<le> lasso_ratio lasso_mid [3 / 5, 16 / 15] i"
    using r by (simp add: h(6) numeral_2_eq_2 less_Suc_eq)
  have first: "\<forall>i < (0::nat). lasso_ratio lasso_mid [3 / 5, 16 / 15] i
      \<noteq> lasso_ratio lasso_mid [3 / 5, 16 / 15] 0"
    by simp
  have fin: "lasso_ratio lasso_mid [3 / 5, 16 / 15] 0 < 5" "(5::real) \<le> DBL_MAX"
    "0 < lasso_ratio lasso_mid [3 / 5, 16 / 15] 0"
    using r by (simp_all add: DBL_MAX_def)
  have a1: "step_length lasso_mid [3 / 5, 16 / 15] [3 / 5, 4 / 5, 0] (3 / 5)
      = Inr (lasso_ratio lasso_mid [3 / 5, 16 / 15] 0, 0, True)"
    using A h(1-5) lasso_mid_bound least first fin by blast
  then have a1': "step_length lasso_mid [3 / 5, 16 / 15] [3 / 5, 4 / 5, 0] (3 / 5)
      = Inr (5 / 3, 0, True)"
    using r by simp
  have e: "\<not> kick_out lasso_pre" "kick_out lasso_flag" "change_ind lasso_flag = 0"
    "active_set (obj lasso_pre) = [0]" "active_set (obj lasso_flag) = [0, 1]"
    "use_cholesky (obj lasso_flag)" "is_active (obj lasso_flag) = [True, True, False]"
    "n_active (obj lasso_flag) = 2"
    by (simp_all add: lasso_pre_def lasso_flag_def lasso_obj_def)
  have a3: "active_set (obj lasso_flag) = active_set (obj lasso_pre) @ [change_ind lasso_pre]"
    using A e(1,2) lasso_pre_run by blast
  have a4: "\<exists>t1 bd yd nz gamma. enter_or_leave lasso_pre = Inr t1 \<and>
      step_length t1 bd yd nz = Inr (gamma, change_ind lasso_flag, kick_out lasso_flag)"
    using A lasso_pre_run by blast
  have b5: "active_set (obj lasso_post) = take (change_ind lasso_flag) (active_set (obj lasso_flag))
        @ drop (Suc (change_ind lasso_flag)) (active_set (obj lasso_flag)) \<and>
      n_active (obj lasso_post) = u32_dec (n_active (obj lasso_flag)) \<and>
      is_active (obj lasso_post)
        = (is_active (obj lasso_flag))[active_set (obj lasso_flag) ! change_ind lasso_flag := False] \<and>
      (if use_cholesky (obj lasso_flag)
       then CholeskyDelete (R_chol lasso_flag) (change_ind lasso_flag) = Inr (R_chol lasso_post)
       else R_chol lasso_post = R_chol lasso_flag)"
    using B e(2) lasso_flag_run by blast
  have p: "R_chol lasso_post = [[3 / 4]]" by (simp add: lasso_post_def)
  show ?thesis
    using h(1) lasso_mid_bound r a1' e(1-5) lasso_pre_run a4 lasso_flag_run b5 e(6-8) p
    by (simp add: u32_dec_def)
qed

end
